theory Spec2Isabelle
  imports Main
begin

section \<open>Go strings and the library functions the analyzer calls\<close>

text \<open>
  A Go \<^verbatim>\<open>string\<close> is a sequence of bytes, and so is an Isabelle \<open>string\<close>: \<open>length\<close> is
  Go's \<^verbatim>\<open>len\<close> and \<open>s ! i\<close> is the byte \<^verbatim>\<open>s[i]\<close>. The functions of the packages
  \<^verbatim>\<open>strings\<close>, \<^verbatim>\<open>unicode\<close> and \<^verbatim>\<open>fmt\<close> that the analyzer calls are modelled on bytes:

  \<^item> White space is exact. \<^verbatim>\<open>unicode.IsSpace\<close> holds for the code points U+0009 to U+000D,
    U+0020, U+0085, U+00A0, U+1680, U+2000 to U+200A, U+2028, U+2029, U+202F, U+205F and
    U+3000. \<^verbatim>\<open>strings.TrimSpace\<close>, \<^verbatim>\<open>strings.Fields\<close> and \<^verbatim>\<open>strings.IndexFunc\<close> decode UTF-8, so
    for them a white-space character is one of the six ASCII bytes or the UTF-8 encoding of
    one of the others (\<open>utf8Spaces\<close>). Such an encoding starts with a byte that is not a
    UTF-8 continuation byte, hence it is decoded as that character wherever it occurs, and
    looking for it at every byte offset finds what Go finds rune by rune.
  \<^item> \<^verbatim>\<open>strings.EqualFold\<close> is only ever called with the constant \<^verbatim>\<open>"AS"\<close>; the strings that
    fold to it are listed in full (\<open>equalFold_AS\<close>).
  \<^item> Case mapping (\<^verbatim>\<open>strings.ToUpper\<close>, \<^verbatim>\<open>strings.ToLower\<close>) and quoting (the verb \<^verbatim>\<open>%q\<close>)
    depend on Unicode's tables of letters and printable characters. The model maps the
    ASCII letters and escapes the ASCII bytes as Go does and copies every byte from 0x80
    on: it is Go's result on ASCII text. The general theorems below use of these three
    functions only that \<open>toUpper\<close> of a non-empty string is not empty; the evaluations that
    go through them are on ASCII text.

  Go's \<^verbatim>\<open>int\<close> is a 64-bit integer. The analyzer counts lines, stages and layers with it,
  none of which can reach \<open>2^63\<close>, so it is modelled by \<open>int\<close> without wrap-around.
\<close>

definition byte :: "char \<Rightarrow> nat" where
  "byte c = of_char c"

definition asciiSpace :: "char \<Rightarrow> bool" where
  "asciiSpace c = (byte c = 0x20 \<or> (0x09 \<le> byte c \<and> byte c \<le> 0x0D))"

text \<open>\<^verbatim>\<open>unicode.IsSpace(rune(b))\<close> for a single byte \<open>b\<close>: the byte value is taken as a code
  point, so the Latin-1 spaces U+0085 and U+00A0 count.\<close>

definition isSpaceByte :: "char \<Rightarrow> bool" where
  "isSpaceByte c = (asciiSpace c \<or> byte c = 0x85 \<or> byte c = 0xA0)"

definition utf8Spaces :: "string list" where
  "utf8Spaces =
    [[CHR 0xC2, CHR 0x85], [CHR 0xC2, CHR 0xA0], [CHR 0xE1, CHR 0x9A, CHR 0x80],
     [CHR 0xE2, CHR 0x80, CHR 0x80], [CHR 0xE2, CHR 0x80, CHR 0x81],
     [CHR 0xE2, CHR 0x80, CHR 0x82], [CHR 0xE2, CHR 0x80, CHR 0x83],
     [CHR 0xE2, CHR 0x80, CHR 0x84], [CHR 0xE2, CHR 0x80, CHR 0x85],
     [CHR 0xE2, CHR 0x80, CHR 0x86], [CHR 0xE2, CHR 0x80, CHR 0x87],
     [CHR 0xE2, CHR 0x80, CHR 0x88], [CHR 0xE2, CHR 0x80, CHR 0x89],
     [CHR 0xE2, CHR 0x80, CHR 0x8A], [CHR 0xE2, CHR 0x80, CHR 0xA8],
     [CHR 0xE2, CHR 0x80, CHR 0xA9], [CHR 0xE2, CHR 0x80, CHR 0xAF],
     [CHR 0xE2, CHR 0x81, CHR 0x9F], [CHR 0xE3, CHR 0x80, CHR 0x80]]"

definition hasPrefix :: "string \<Rightarrow> string \<Rightarrow> bool" where
  "hasPrefix s p = (take (length p) s = p)"

definition hasSuffix :: "string \<Rightarrow> string \<Rightarrow> bool" where
  "hasSuffix s p = (length p \<le> length s \<and> drop (length s - length p) s = p)"

definition trimPrefix :: "string \<Rightarrow> string \<Rightarrow> string" where
  "trimPrefix s p = (if hasPrefix s p then drop (length p) s else s)"

definition trimSuffix :: "string \<Rightarrow> string \<Rightarrow> string" where
  "trimSuffix s p = (if hasSuffix s p then take (length s - length p) s else s)"

fun contains :: "string \<Rightarrow> string \<Rightarrow> bool" where
  "contains [] sub = (sub = [])"
| "contains (c # cs) sub = (hasPrefix (c # cs) sub \<or> contains cs sub)"

text \<open>The number of bytes of the white-space character \<open>s\<close> starts with, 0 when it starts
  with none; \<open>lastSpaceWidth\<close> is the same for the character \<open>s\<close> ends with.\<close>

definition spaceWidth :: "string \<Rightarrow> nat" where
  "spaceWidth s =
    (case s of
       [] \<Rightarrow> 0
     | c # _ \<Rightarrow>
         if byte c < 0x80 then (if asciiSpace c then 1 else 0)
         else (case find (hasPrefix s) utf8Spaces of None \<Rightarrow> 0 | Some w \<Rightarrow> length w))"

definition lastSpaceWidth :: "string \<Rightarrow> nat" where
  "lastSpaceWidth s =
    (if s = [] then 0
     else if byte (last s) < 0x80 then (if asciiSpace (last s) then 1 else 0)
     else (case find (hasSuffix s) utf8Spaces of None \<Rightarrow> 0 | Some w \<Rightarrow> length w))"

lemma spaceWidth_le: "spaceWidth s \<le> length s"
proof (cases s)
  case Nil
  then show ?thesis by (simp add: spaceWidth_def)
next
  case (Cons c cs)
  have "length w \<le> length s" if "find (hasPrefix s) utf8Spaces = Some w" for w
  proof -
    from that have "hasPrefix s w" by (auto simp: find_Some_iff)
    then have "take (length w) s = w" by (simp add: hasPrefix_def)
    then have "length w = min (length s) (length w)" by (metis length_take)
    then show ?thesis by simp
  qed
  with Cons show ?thesis
    by (auto simp: spaceWidth_def split: option.splits)
qed

lemma lastSpaceWidth_le: "lastSpaceWidth s \<le> length s"
  by (auto simp: lastSpaceWidth_def hasSuffix_def find_Some_iff Suc_leI split: option.splits)

function trimLeft :: "string \<Rightarrow> string" where
  "trimLeft s = (if 0 < spaceWidth s then trimLeft (drop (spaceWidth s) s) else s)"
  by pat_completeness auto
termination
proof (relation "measure length")
  show "wf (measure length)" by simp
next
  fix s :: string
  assume "0 < spaceWidth s"
  moreover have "spaceWidth s \<le> length s" by (rule spaceWidth_le)
  ultimately show "(drop (spaceWidth s) s, s) \<in> measure length" by simp
qed

function trimRight :: "string \<Rightarrow> string" where
  "trimRight s =
    (if 0 < lastSpaceWidth s then trimRight (take (length s - lastSpaceWidth s) s) else s)"
  by pat_completeness auto
termination
proof (relation "measure length")
  show "wf (measure length)" by simp
next
  fix s :: string
  assume "0 < lastSpaceWidth s"
  moreover have "lastSpaceWidth s \<le> length s" by (rule lastSpaceWidth_le)
  ultimately show "(take (length s - lastSpaceWidth s) s, s) \<in> measure length" by simp
qed

declare trimLeft.simps [simp del] trimRight.simps [simp del]

text \<open>\<^verbatim>\<open>strings.TrimSpace\<close>: leading white space goes first, then trailing white space.\<close>

definition trimSpace :: "string \<Rightarrow> string" where
  "trimSpace s = trimRight (trimLeft s)"

text \<open>\<^verbatim>\<open>strings.IndexFunc(s, unicode.IsSpace)\<close>: the byte offset of the first white-space
  character, or -1.\<close>

fun indexSpaceFrom :: "string \<Rightarrow> int \<Rightarrow> int" where
  "indexSpaceFrom [] i = -1"
| "indexSpaceFrom (c # cs) i =
     (if 0 < spaceWidth (c # cs) then i else indexSpaceFrom cs (i + 1))"

definition indexSpace :: "string \<Rightarrow> int" where
  "indexSpace s = indexSpaceFrom s 0"

text \<open>\<^verbatim>\<open>strings.Fields\<close>: the maximal runs of characters that are not white space. \<open>tok\<close> is
  the field being read.\<close>

function fieldsFrom :: "string \<Rightarrow> string \<Rightarrow> string list" where
  "fieldsFrom s tok =
    (if s = [] then (if tok = [] then [] else [tok])
     else if 0 < spaceWidth s
       then (if tok = [] then [] else [tok]) @ fieldsFrom (drop (spaceWidth s) s) []
       else fieldsFrom (tl s) (tok @ [hd s]))"
  by pat_completeness auto
termination
proof (relation "measure (\<lambda>(s, tok). length s)")
  show "wf (measure (\<lambda>(s, tok). length s))" by simp
next
  fix s tok :: string
  assume "s \<noteq> []" "0 < spaceWidth s"
  then show "((drop (spaceWidth s) s, []), (s, tok)) \<in> measure (\<lambda>(s, tok). length s)"
    by simp
next
  fix s tok :: string
  assume "s \<noteq> []"
  then show "((tl s, tok @ [hd s]), (s, tok)) \<in> measure (\<lambda>(s, tok). length s)"
    by simp
qed

declare fieldsFrom.simps [simp del]

definition Fields :: "string \<Rightarrow> string list" where
  "Fields s = fieldsFrom s []"

definition upperByte :: "char \<Rightarrow> char" where
  "upperByte c =
    (if 0x61 \<le> byte c \<and> byte c \<le> 0x7A then ''ABCDEFGHIJKLMNOPQRSTUVWXYZ'' ! (byte c - 0x61)
     else c)"

definition lowerByte :: "char \<Rightarrow> char" where
  "lowerByte c =
    (if 0x41 \<le> byte c \<and> byte c \<le> 0x5A then ''abcdefghijklmnopqrstuvwxyz'' ! (byte c - 0x41)
     else c)"

definition toUpper :: "string \<Rightarrow> string" where
  "toUpper s = map upperByte s"

definition toLower :: "string \<Rightarrow> string" where
  "toLower s = map lowerByte s"

text \<open>\<^verbatim>\<open>strings.EqualFold(t, "AS")\<close>: under Unicode simple case folding \<open>A\<close> is equal to \<open>a\<close>
  only, and \<open>S\<close> to \<open>s\<close> and to the long s U+017F, whose encoding is 0xC5 0xBF.\<close>

definition equalFold_AS :: "string \<Rightarrow> bool" where
  "equalFold_AS t =
    (t = ''AS'' \<or> t = ''As'' \<or> t = ''aS'' \<or> t = ''as''
     \<or> t = [CHR ''A'', CHR 0xC5, CHR 0xBF] \<or> t = [CHR ''a'', CHR 0xC5, CHR 0xBF])"

text \<open>The verb \<^verbatim>\<open>%d\<close>.\<close>

definition digit :: "nat \<Rightarrow> char" where
  "digit d = ''0123456789'' ! d"

fun natDigits :: "nat \<Rightarrow> string" where
  "natDigits n = (if n < 10 then [digit n] else natDigits (n div 10) @ [digit (n mod 10)])"

declare natDigits.simps [simp del]

definition itoa :: "int \<Rightarrow> string" where
  "itoa i = (if i < 0 then ''-'' @ natDigits (nat (- i)) else natDigits (nat i))"

text \<open>The verb \<^verbatim>\<open>%q\<close> (\<^verbatim>\<open>strconv.Quote\<close>).\<close>

definition hexDigit :: "nat \<Rightarrow> char" where
  "hexDigit d = ''0123456789abcdef'' ! d"

definition quoteByte :: "char \<Rightarrow> string" where
  "quoteByte c =
    (if byte c = 0x22 then [CHR 0x5C, CHR 0x22]
     else if byte c = 0x5C then [CHR 0x5C, CHR 0x5C]
     else if byte c = 0x07 then [CHR 0x5C, CHR ''a'']
     else if byte c = 0x08 then [CHR 0x5C, CHR ''b'']
     else if byte c = 0x0C then [CHR 0x5C, CHR ''f'']
     else if byte c = 0x0A then [CHR 0x5C, CHR ''n'']
     else if byte c = 0x0D then [CHR 0x5C, CHR ''r'']
     else if byte c = 0x09 then [CHR 0x5C, CHR ''t'']
     else if byte c = 0x0B then [CHR 0x5C, CHR ''v'']
     else if byte c < 0x20 \<or> byte c = 0x7F
       then [CHR 0x5C, CHR ''x'', hexDigit (byte c div 16), hexDigit (byte c mod 16)]
     else [c])"

definition quote :: "string \<Rightarrow> string" where
  "quote s = [CHR 0x22] @ concat (map quoteByte s) @ [CHR 0x22]"

section \<open>The data model\<close>

definition effectStageStart :: string where "effectStageStart = ''stage start''"
definition effectFilesystem :: string where "effectFilesystem = ''filesystem layer''"
definition effectMetadata :: string where "effectMetadata = ''metadata''"
definition effectBuildArg :: string where "effectBuildArg = ''build arg''"

record descriptor =
  Effect :: string
  Explanation :: string
  CacheHint :: string

definition Descriptor :: "string \<Rightarrow> string \<Rightarrow> string \<Rightarrow> descriptor" where
  "Descriptor e x c = \<lparr>descriptor.Effect = e, descriptor.Explanation = x, descriptor.CacheHint = c\<rparr>"

definition instructionDescriptors :: "string \<rightharpoonup> descriptor" where
  "instructionDescriptors = map_of
    [(''FROM'', Descriptor effectStageStart
        ''Starts a stage and pulls the referenced base image. Any cache from previous stages is discarded.''
        ''Invalidates when the base image digest or flags like --platform change.''),
     (''RUN'', Descriptor effectFilesystem
        ''Executes a shell command inside an intermediate container and commits the result as a new, immutable layer.''
        ''Cache key is the command text plus every file the command reads. Changing any of them busts the cache.''),
     (''COPY'', Descriptor effectFilesystem
        ''Copies files into the image and creates a new layer with their contents.''
        (''Any change in the source files or flags invalidates this layer'' @ [CHR 0x27] @ ''s cache entry.'')),
     (''ADD'', Descriptor effectFilesystem
        ''Behaves like COPY but also accepts remote URLs and auto-extracts tar archives, all of which produce new layers.''
        ''Cache depends on the archive/URL content as well as the instruction text.''),
     (''CMD'', Descriptor effectMetadata
        ''Sets the default command for containers created from the image. No filesystem changes occur.''
        ''Cache is tied to the instruction text only.''),
     (''ENTRYPOINT'', Descriptor effectMetadata
        ''Defines the executable that always runs when a container starts.''
        ''Cache is tied to the instruction text only.''),
     (''ENV'', Descriptor effectMetadata
        ''Persists environment variables into image metadata for future instructions and containers.''
        ''Any variable value change invalidates the cache for this step and later steps.''),
     (''ARG'', Descriptor effectBuildArg
        ''Defines build-time arguments. The value can influence cache keys but does not end up in the final image runtime environment.''
        ''Changing build args invalidates the layer that consumes them.''),
     (''WORKDIR'', Descriptor effectMetadata
        ''Sets the working directory for subsequent instructions, recorded as metadata.''
        ''Cache busts only when the path changes.''),
     (''USER'', Descriptor effectMetadata
        ''Configures the user/group used for following instructions and containers.''
        ''Cache busts when the user specification changes.''),
     (''LABEL'', Descriptor effectMetadata
        ''Adds metadata key/value pairs to the image manifest without touching the filesystem.''
        ''Cache invalidates when a label changes.''),
     (''EXPOSE'', Descriptor effectMetadata
        ''Documents which ports containers are expected to listen on. Pure metadata.''
        ''Cache invalidates when the exposed ports change.''),
     (''VOLUME'', Descriptor effectMetadata
        ''Declares mount points that become anonymous volumes at runtime.''
        ''Cache depends only on the instruction text.''),
     (''HEALTHCHECK'', Descriptor effectMetadata
        ''Stores a command for Docker to probe container health. No filesystem changes.''
        ''Cache invalidates when the command or interval flags change.''),
     (''STOPSIGNAL'', Descriptor effectMetadata
        ''Configures which signal Docker sends to stop the container.''
        ''Cache depends on the instruction text.''),
     (''SHELL'', Descriptor effectMetadata
        ''Overrides the default shell that RUN and similar instructions use.''
        ''Cache invalidates when the shell definition changes.''),
     (''ONBUILD'', Descriptor effectMetadata
        ''Registers a trigger that fires when the current image is used as a base in another Dockerfile.''
        ''Cache ties to the trigger content.''),
     (''MAINTAINER'', Descriptor effectMetadata
        ''Deprecated metadata about the author. Included here for completeness.''
        ''Cache invalidates when the value changes.'')]"

record rawInstruction =
  rline :: int
  rtext :: string

record parsedInstruction =
  Line :: int
  Keyword :: string
  Args :: string
  Raw :: string

record layerReport =
  Number :: int
  Instruction :: parsedInstruction
  Effect :: string
  Explanation :: string
  CacheHint :: string
  Notes :: "string list"

record stageInfo =
  Index :: int
  Name :: string
  Base :: string

record stageReport =
  Stage :: stageInfo
  Layers :: "layerReport list"
  FsLayers :: int
  MetadataLayers :: int
  BuildArgs :: int

text \<open>\<^verbatim>\<open>Stages\<close> is a slice of pointers to stage reports: \<open>None\<close> is the nil pointer. Every
  stage report is allocated by \<open>ensureStage\<close> and reachable through its one slice element
  only, so a write through the pointer is an update of that element (\<open>setStage\<close>).\<close>

record report =
  FilePath :: string
  Global :: "layerReport list"
  Stages :: "stageReport option list"

text \<open>An error value carries its message; \<open>Panic\<close> is a run-time panic (an index out of
  range).\<close>

datatype error = Error string | Panic

text \<open>The file system, as far as the analyzer looks at it: \<^verbatim>\<open>filepath.Abs\<close>, \<^verbatim>\<open>os.Open\<close>, and
  for an opened file the lines that \<^verbatim>\<open>scanner.Text()\<close> returns one after the other until
  \<^verbatim>\<open>scanner.Scan()\<close> is false, with the value of \<^verbatim>\<open>scanner.Err()\<close> at that point.\<close>

record osFile =
  Lines :: "string list"
  Err :: "error option"

record filesystem =
  Abs :: "string \<Rightarrow> error + string"
  Open :: "string \<Rightarrow> error + osFile"

section \<open>The line assembler\<close>

definition stripContinuation :: "string \<Rightarrow> string \<times> bool" where
  "stripContinuation line =
    (if hasSuffix line [CHR 0x5C] then (trimSpace (trimSuffix line [CHR 0x5C]), True)
     else (line, False))"

function removeInlineComment_loop :: "string \<Rightarrow> nat \<Rightarrow> string" where
  "removeInlineComment_loop line i =
    (if i < length line then
       (if line ! i = CHR ''#'' \<and> (i = 0 \<or> isSpaceByte (line ! (i - 1)))
        then trimSpace (take i line)
        else removeInlineComment_loop line (i + 1))
     else line)"
  by pat_completeness auto
termination
  by (relation "measure (\<lambda>(line, i). length line - i)") auto

declare removeInlineComment_loop.simps [simp del]

definition removeInlineComment :: "string \<Rightarrow> string" where
  "removeInlineComment line = removeInlineComment_loop line 0"

text \<open>The loop of \<open>readInstructions\<close> over the lines of the scanner; its local variables are
  the line counter, the builder \<open>current\<close> (a string), \<open>currentLine\<close> and the instructions
  emitted so far. It returns \<open>current\<close> and the instructions as the loop leaves them, which
  is all that the rest of the function reads.\<close>

fun readInstructions_loop ::
  "string list \<Rightarrow> int \<Rightarrow> string \<Rightarrow> int \<Rightarrow> rawInstruction list \<Rightarrow> string \<times> rawInstruction list"
where
  "readInstructions_loop [] line current currentLine instructions = (current, instructions)"
| "readInstructions_loop (text # rest) line current currentLine instructions =
    (let trimmed = trimSpace text in
     if trimmed = [] \<or> hasPrefix trimmed ''#''
     then readInstructions_loop rest (line + 1) current currentLine instructions
     else
       let lineWithoutInlineComment = removeInlineComment trimmed in
       if lineWithoutInlineComment = []
       then readInstructions_loop rest (line + 1) current currentLine instructions
       else
         let currentLine1 = (if length current = 0 then line else currentLine);
             current1 = (if length current = 0 then current else current @ '' '');
             (linePart, carries) = stripContinuation lineWithoutInlineComment;
             current2 = current1 @ linePart
         in if \<not> carries
            then readInstructions_loop rest (line + 1) [] currentLine1
                   (instructions @ [\<lparr>rline = currentLine1, rtext = current2\<rparr>])
            else readInstructions_loop rest (line + 1) current2 currentLine1 instructions)"

definition readInstructions :: "filesystem \<Rightarrow> string \<Rightarrow> error + rawInstruction list" where
  "readInstructions fs path =
    (case Open fs path of
       Inl err \<Rightarrow> Inl err
     | Inr file \<Rightarrow>
         let (current, instructions) = readInstructions_loop (Lines file) 1 [] 0 [] in
         (case Err file of
            Some err \<Rightarrow> Inl err
          | None \<Rightarrow>
              if length current \<noteq> 0
              then Inl (Error ''unterminated line continuation at end of file'')
              else Inr instructions))"

section \<open>The instruction parser\<close>

definition parseInstruction :: "rawInstruction \<Rightarrow> error + parsedInstruction" where
  "parseInstruction raw =
    (let text = rtext raw; trimmed = trimSpace text in
     if trimmed = [] then Inr \<lparr>Line = 0, Keyword = [], Args = [], Raw = []\<rparr>
     else
       let idx = indexSpace trimmed;
           (keyword, args) =
             (if idx = -1 then (trimmed, [])
              else (take (nat idx) trimmed, trimSpace (drop (nat idx) trimmed)))
       in Inr \<lparr>Line = rline raw, Keyword = toUpper keyword, Args = args, Raw = trimmed\<rparr>)"

text \<open>The first loop of \<open>analyzeDockerfile\<close>.\<close>

fun parseInstructions :: "rawInstruction list \<Rightarrow> error + parsedInstruction list" where
  "parseInstructions [] = Inr []"
| "parseInstructions (raw # rest) =
    (case parseInstruction raw of
       Inl err \<Rightarrow> Inl err
     | Inr parsed \<Rightarrow>
         (case parseInstructions rest of
            Inl err \<Rightarrow> Inl err
          | Inr instructions \<Rightarrow> Inr (parsed # instructions)))"

section \<open>The descriptor table\<close>

definition descriptorFor :: "string \<Rightarrow> descriptor" where
  "descriptorFor keyword =
    (case instructionDescriptors keyword of
       Some desc \<Rightarrow> desc
     | None \<Rightarrow> Descriptor effectMetadata
         ''Recorded as metadata. It influences how containers start but does not add filesystem content.''
         ''Cache key ties to the literal instruction, so changing text invalidates the layer.'')"

section \<open>The stage and report builder\<close>

definition buildLayer :: "parsedInstruction \<Rightarrow> descriptor \<Rightarrow> string list \<Rightarrow> layerReport" where
  "buildLayer inst desc extraNotes =
    \<lparr>Number = 0, Instruction = inst, Effect = descriptor.Effect desc,
     Explanation = descriptor.Explanation desc, CacheHint = descriptor.CacheHint desc,
     Notes = [] @ extraNotes\<rparr>"

definition newStage :: "int \<Rightarrow> stageReport" where
  "newStage index =
    \<lparr>Stage = \<lparr>Index = index, Name = [], Base = []\<rparr>, Layers = [],
     FsLayers = 0, MetadataLayers = 0, BuildArgs = 0\<rparr>"

function ensureStage_loop :: "stageReport option list \<Rightarrow> int \<Rightarrow> stageReport option list" where
  "ensureStage_loop stages index =
    (if int (length stages) \<le> index
     then ensureStage_loop (stages @ [Some (newStage (int (length stages)))]) index
     else stages)"
  by pat_completeness auto
termination
  by (relation "measure (\<lambda>(stages, index). nat (index + 1 - int (length stages)))") auto

declare ensureStage_loop.simps [simp del]

text \<open>\<open>ensureStage\<close> returns the report as it leaves it and the stage report its result
  points to. \<^verbatim>\<open>rep.Stages[index]\<close> panics for a negative index.\<close>

definition ensureStage :: "report \<Rightarrow> int \<Rightarrow> error + report \<times> stageReport" where
  "ensureStage rep index =
    (let rep1 = rep\<lparr>Stages := ensureStage_loop (Stages rep) index\<rparr> in
     if index < 0 then Inl Panic
     else
       (case Stages rep1 ! nat index of
          None \<Rightarrow>
            let stage = newStage index
            in Inr (rep1\<lparr>Stages := (Stages rep1)[nat index := Some stage]\<rparr>, stage)
        | Some stage \<Rightarrow> Inr (rep1, stage)))"

text \<open>A write through the pointer that \<open>ensureStage rep index\<close> returned.\<close>

definition setStage :: "report \<Rightarrow> int \<Rightarrow> stageReport \<Rightarrow> report" where
  "setStage rep index stage = rep\<lparr>Stages := (Stages rep)[nat index := Some stage]\<rparr>"

function parseFrom_loop :: "string list \<Rightarrow> nat \<Rightarrow> nat" where
  "parseFrom_loop tokens i =
    (if i < length tokens then
       (if hasPrefix (tokens ! i) ''--'' then parseFrom_loop tokens (i + 1) else i)
     else i)"
  by pat_completeness auto
termination
  by (relation "measure (\<lambda>(tokens, i). length tokens - i)") auto

declare parseFrom_loop.simps [simp del]

definition parseFrom :: "string \<Rightarrow> string \<times> string" where
  "parseFrom args =
    (let tokens = Fields args in
     if length tokens = 0 then ([], [])
     else
       let i = parseFrom_loop tokens 0 in
       if i \<ge> length tokens then ([], [])
       else
         let base = tokens ! i; i1 = i + 1 in
         if i1 + 1 < length tokens \<and> equalFold_AS (tokens ! i1)
         then (base, tokens ! (i1 + 1))
         else (base, []))"

function detectCopySourceStage_loop :: "string list \<Rightarrow> nat \<Rightarrow> string" where
  "detectCopySourceStage_loop tokens i =
    (if i < length tokens then
       (let token = tokens ! i in
        if hasPrefix token ''--from='' then trimPrefix token ''--from=''
        else if token = ''--from'' \<and> i + 1 < length tokens then tokens ! (i + 1)
        else detectCopySourceStage_loop tokens (i + 1))
     else [])"
  by pat_completeness auto
termination
  by (relation "measure (\<lambda>(tokens, i). length tokens - i)") auto

declare detectCopySourceStage_loop.simps [simp del]

definition detectCopySourceStage :: "string \<Rightarrow> string" where
  "detectCopySourceStage args = detectCopySourceStage_loop (Fields args) 0"

definition copyNotes :: "string \<Rightarrow> (string \<rightharpoonup> int) \<Rightarrow> string list" where
  "copyNotes args aliases =
    (let source = detectCopySourceStage args in
     if source = []
     then [''Takes files from the build context, so editing those files will invalidate this layer.'']
     else
       let lowered = toLower source in
       (case aliases lowered of
          Some idx \<Rightarrow>
            [''Copies from stage '' @ itoa idx @ '' ('' @ source @ ''). Cache depends on that stage''
               @ [CHR 0x27] @ ''s output instead of local files.'']
        | None \<Rightarrow> [''Copies from '' @ quote source @ ''. Make sure the stage or image exists.'']))"

text \<open>The local variables of the second loop of \<open>analyzeDockerfile\<close>.\<close>

record builder =
  rep :: report
  stageIndex :: int
  stageAliases :: "string \<rightharpoonup> int"

text \<open>The body of that loop, in its three parts: a \<^verbatim>\<open>FROM\<close>, an instruction before the first
  \<^verbatim>\<open>FROM\<close>, an instruction inside a stage. \<open>Inl\<close> is the \<^verbatim>\<open>return nil, err\<close>.\<close>

definition fromInstruction :: "builder \<Rightarrow> parsedInstruction \<Rightarrow> error + builder" where
  "fromInstruction b inst =
    (let stageIndex1 = stageIndex b + 1 in
     case ensureStage (rep b) stageIndex1 of
       Inl err \<Rightarrow> Inl err
     | Inr (rep1, stage) \<Rightarrow>
         let (base, alias) = parseFrom (Args inst) in
         if base = []
         then Inl (Error (''line '' @ itoa (Line inst) @ '': FROM instruction missing base image''))
         else
           let stage1 = stage\<lparr>Stage := (Stage stage)\<lparr>Base := base, Name := alias\<rparr>\<rparr>;
               aliases1 = (if alias \<noteq> [] then (stageAliases b)(toLower alias \<mapsto> stageIndex1)
                           else stageAliases b);
               aliases2 = aliases1(itoa stageIndex1 \<mapsto> stageIndex1);
               layer = buildLayer inst (descriptorFor (Keyword inst))
                         [''Stage resets here and pulls '' @ quote base @ ''.''];
               layer1 = (if alias \<noteq> []
                         then layer\<lparr>Notes := Notes layer @
                                [''Alias '' @ quote alias
                                 @ '' lets you reference this stage via COPY --from='' @ alias @ ''.'']\<rparr>
                         else layer);
               layer2 = layer1\<lparr>Number := int (length (Layers stage1)) + 1\<rparr>;
               stage2 = stage1\<lparr>Layers := Layers stage1 @ [layer2]\<rparr>
           in Inr \<lparr>rep = setStage rep1 stageIndex1 stage2, stageIndex = stageIndex1,
                    stageAliases = aliases2\<rparr>)"

definition globalInstruction :: "builder \<Rightarrow> parsedInstruction \<Rightarrow> error + builder" where
  "globalInstruction b inst =
    (if Keyword inst = ''ARG''
     then
       let layer = buildLayer inst (descriptorFor (Keyword inst)) [];
           layer1 = layer\<lparr>Notes := Notes layer @
                      [''This ARG applies globally and can be referenced in the first FROM.'']\<rparr>;
           layer2 = layer1\<lparr>Number := int (length (Global (rep b))) + 1\<rparr>
       in Inr (b\<lparr>rep := (rep b)\<lparr>Global := Global (rep b) @ [layer2]\<rparr>\<rparr>)
     else Inl (Error (''line '' @ itoa (Line inst) @ '': Dockerfile must start with FROM (found ''
                        @ Keyword inst @ '')'')))"

definition keywordNotes :: "parsedInstruction \<Rightarrow> (string \<rightharpoonup> int) \<Rightarrow> string list" where
  "keywordNotes inst aliases =
    (if Keyword inst = ''COPY'' then copyNotes (Args inst) aliases
     else if Keyword inst = ''ADD'' then
       (if contains (Args inst) ''http://'' \<or> contains (Args inst) ''https://''
        then [''Remote URLs are downloaded at build time; network changes can invalidate cache.'']
        else [])
       @ (if contains (Args inst) ''.tar''
          then [''Tar archives are auto-extracted, which can surprise caching when archive contents change.'']
          else [])
     else if Keyword inst = ''RUN''
       then [''Cleanup temp files within the same RUN to prevent them from sticking in the layer.'']
     else if Keyword inst = ''ARG''
       then [''Only available during build; use ENV if the value is needed at runtime.'']
     else [])"

definition stageInstruction :: "builder \<Rightarrow> parsedInstruction \<Rightarrow> error + builder" where
  "stageInstruction b inst =
    (case ensureStage (rep b) (stageIndex b) of
       Inl err \<Rightarrow> Inl err
     | Inr (rep1, stage) \<Rightarrow>
         let layer = buildLayer inst (descriptorFor (Keyword inst)) [];
             layer1 = layer\<lparr>Notes := Notes layer @ keywordNotes inst (stageAliases b)\<rparr>;
             stage1 =
               (if Effect layer1 = effectFilesystem then stage\<lparr>FsLayers := FsLayers stage + 1\<rparr>
                else if Effect layer1 = effectMetadata
                  then stage\<lparr>MetadataLayers := MetadataLayers stage + 1\<rparr>
                else if Effect layer1 = effectBuildArg
                  then stage\<lparr>BuildArgs := BuildArgs stage + 1\<rparr>
                else stage);
             layer2 = layer1\<lparr>Number := int (length (Layers stage1)) + 1\<rparr>;
             stage2 = stage1\<lparr>Layers := Layers stage1 @ [layer2]\<rparr>
         in Inr (b\<lparr>rep := setStage rep1 (stageIndex b) stage2\<rparr>))"

definition processInstruction :: "builder \<Rightarrow> parsedInstruction \<Rightarrow> error + builder" where
  "processInstruction b inst =
    (if Keyword inst = [] then Inr b
     else if Keyword inst = ''FROM'' then fromInstruction b inst
     else if stageIndex b = -1 then globalInstruction b inst
     else stageInstruction b inst)"

fun processInstructions :: "builder \<Rightarrow> parsedInstruction list \<Rightarrow> error + builder" where
  "processInstructions b [] = Inr b"
| "processInstructions b (inst # rest) =
    (case processInstruction b inst of
       Inl err \<Rightarrow> Inl err
     | Inr b1 \<Rightarrow> processInstructions b1 rest)"

definition initialBuilder :: "string \<Rightarrow> builder" where
  "initialBuilder fullPath =
    \<lparr>rep = \<lparr>FilePath = fullPath, Global = [], Stages = []\<rparr>, stageIndex = -1,
     stageAliases = Map.empty\<rparr>"

text \<open>\<open>analyzeDockerfile\<close> in its three parts. The first ends with the first loop and gives
  the absolute path and the instruction stream. The second is the second loop, started on
  the empty report with stage index -1 and an empty alias table; it gives the local
  variables as the loop leaves them, the alias table among them. The third is the
  \<^verbatim>\<open>return rep, nil\<close>.\<close>

definition analyzeDockerfile_instructions ::
  "filesystem \<Rightarrow> string \<Rightarrow> error + string \<times> parsedInstruction list" where
  "analyzeDockerfile_instructions fs path =
    (case Abs fs path of
       Inl err \<Rightarrow> Inl err
     | Inr fullPath \<Rightarrow>
         (case readInstructions fs fullPath of
            Inl err \<Rightarrow> Inl err
          | Inr rawInstructions \<Rightarrow>
              if length rawInstructions = 0
              then Inl (Error (''no Dockerfile instructions found in '' @ fullPath))
              else
                (case parseInstructions rawInstructions of
                   Inl err \<Rightarrow> Inl err
                 | Inr instructions \<Rightarrow> Inr (fullPath, instructions))))"

definition analyzeDockerfile_builder :: "filesystem \<Rightarrow> string \<Rightarrow> error + builder" where
  "analyzeDockerfile_builder fs path =
    (case analyzeDockerfile_instructions fs path of
       Inl err \<Rightarrow> Inl err
     | Inr (fullPath, instructions) \<Rightarrow>
         processInstructions (initialBuilder fullPath) instructions)"

definition analyzeDockerfile :: "filesystem \<Rightarrow> string \<Rightarrow> error + report" where
  "analyzeDockerfile fs path =
    (case analyzeDockerfile_builder fs path of
       Inl err \<Rightarrow> Inl err
     | Inr b \<Rightarrow> Inr (rep b))"

text \<open>A file system that holds one Dockerfile, with the given lines, whatever the path.\<close>

definition dockerfile :: "string list \<Rightarrow> filesystem" where
  "dockerfile ls = \<lparr>Abs = (\<lambda>p. Inr p), Open = (\<lambda>p. Inr \<lparr>Lines = ls, Err = None\<rparr>)\<rparr>"

section \<open>What the claims speak of\<close>

text \<open>The number of layers with a given effect, and of instructions with a given keyword.\<close>

definition countEffect :: "string \<Rightarrow> layerReport list \<Rightarrow> nat" where
  "countEffect e ls = length (filter (\<lambda>l. Effect l = e) ls)"

definition countKeyword :: "string \<Rightarrow> parsedInstruction list \<Rightarrow> nat" where
  "countKeyword k insts = length (filter (\<lambda>inst. Keyword inst = k) insts)"

text \<open>The invariant of the second loop: the stage index is that of the last stage, no
  element of \<open>Stages\<close> is nil, and every stage report carries its position, starts with
  its \<^verbatim>\<open>FROM\<close> layer and counts its other layers by effect.\<close>

definition stage_ok :: "nat \<Rightarrow> stageReport \<Rightarrow> bool" where
  "stage_ok i s \<longleftrightarrow>
     Index (Stage s) = int i \<and>
     (\<exists>l ls. Layers s = l # ls \<and> Number l = 1 \<and> Effect l = effectStageStart \<and>
        Keyword (Instruction l) = ''FROM'' \<and> (\<forall>l' \<in> set ls. Effect l' \<noteq> effectStageStart)) \<and>
     FsLayers s = int (countEffect effectFilesystem (Layers s)) \<and>
     MetadataLayers s = int (countEffect effectMetadata (Layers s)) \<and>
     BuildArgs s = int (countEffect effectBuildArg (Layers s)) \<and>
     length (Layers s) = countEffect effectFilesystem (Layers s) + countEffect effectMetadata (Layers s)
        + countEffect effectBuildArg (Layers s) + 1"

definition builder_ok :: "builder \<Rightarrow> bool" where
  "builder_ok b \<longleftrightarrow>
     stageIndex b = int (length (Stages (rep b))) - 1 \<and>
     (\<forall>i < length (Stages (rep b)). \<exists>s. Stages (rep b) ! i = Some s \<and> stage_ok i s) \<and>
     (\<forall>l \<in> set (Global (rep b)). Effect l = effectBuildArg)"


text \<open>In the words of the specification: the base image of a \<^verbatim>\<open>FROM\<close> is the first token
  that does not start with \<^verbatim>\<open>--\<close>, and its alias is the token after an \<^verbatim>\<open>AS\<close> (in any case)
  that comes right after the base.\<close>

definition fromBase :: "string list \<Rightarrow> string option" where
  "fromBase tokens = find (\<lambda>t. \<not> hasPrefix t ''--'') tokens"

definition fromAlias :: "string list \<Rightarrow> string" where
  "fromAlias tokens =
    (case dropWhile (\<lambda>t. hasPrefix t ''--'') tokens of
       base # t1 # t2 # rest \<Rightarrow> if equalFold_AS t1 then t2 else []
     | _ \<Rightarrow> [])"


text \<open>In the words of the specification: the reference of a \<^verbatim>\<open>COPY\<close> is the \<open>ref\<close> of the
  first flag \<^verbatim>\<open>--from=ref\<close> or \<^verbatim>\<open>--from ref\<close> among its arguments, and \<open>copyNotes_claimed\<close> is
  the note the specification promises: for a reference that the alias table has, the
  stage; for one that it has not, the external stage or image; with no flag, the build
  context.\<close>

fun copyFromRef :: "string list \<Rightarrow> string option" where
  "copyFromRef [] = None"
| "copyFromRef (t # ts) =
    (if hasPrefix t ''--from='' then Some (drop (length ''--from='') t)
     else if t = ''--from'' \<and> ts \<noteq> [] then Some (hd ts)
     else copyFromRef ts)"

definition copyNotes_claimed :: "string \<Rightarrow> (string \<rightharpoonup> int) \<Rightarrow> string list" where
  "copyNotes_claimed args aliases =
    (case copyFromRef (Fields args) of
       None \<Rightarrow>
         [''Takes files from the build context, so editing those files will invalidate this layer.'']
     | Some ref \<Rightarrow>
         (case aliases (toLower ref) of
            Some idx \<Rightarrow>
              [''Copies from stage '' @ itoa idx @ '' ('' @ ref @ ''). Cache depends on that stage''
                 @ [CHR 0x27] @ ''s output instead of local files.'']
          | None \<Rightarrow> [''Copies from '' @ quote ref @ ''. Make sure the stage or image exists.'']))"


text \<open>A stage registers a key when the key is its lowercased alias or its index in decimal.
  \<open>aliasesOf\<close> is the table that the stages of a report give when they register one after
  the other, a later stage overwriting what an earlier one stored.\<close>

definition registers :: "stageInfo \<Rightarrow> string \<Rightarrow> bool" where
  "registers st k \<longleftrightarrow> (Name st \<noteq> [] \<and> toLower (Name st) = k) \<or> itoa (Index st) = k"

definition registerStage :: "(string \<rightharpoonup> int) \<Rightarrow> stageInfo option \<Rightarrow> (string \<rightharpoonup> int)" where
  "registerStage m so =
    (case so of
       None \<Rightarrow> m
     | Some st \<Rightarrow>
         (if Name st \<noteq> [] then m(toLower (Name st) \<mapsto> Index st) else m)
           (itoa (Index st) \<mapsto> Index st))"

definition aliasesOf :: "stageInfo option list \<Rightarrow> (string \<rightharpoonup> int)" where
  "aliasesOf infos = foldl registerStage Map.empty infos"

definition stageInfos :: "builder \<Rightarrow> stageInfo option list" where
  "stageInfos b = map (map_option Stage) (Stages (rep b))"


text \<open>The test of \<open>removeInlineComment\<close> at offset \<open>i\<close>: a \<^verbatim>\<open>#\<close> that is the first byte or
  comes after a byte that \<open>isSpaceByte\<close> accepts.\<close>

definition commentStart :: "string \<Rightarrow> nat \<Rightarrow> bool" where
  "commentStart l i \<longleftrightarrow> l ! i = CHR ''#'' \<and> (i = 0 \<or> isSpaceByte (l ! (i - 1)))"


text \<open>In the words of the specification: a \<^verbatim>\<open>#\<close> starts a comment when it is the first
  character of the line or the text before it ends with a white-space character.\<close>

definition commentStart_claimed :: "string \<Rightarrow> nat \<Rightarrow> bool" where
  "commentStart_claimed l i \<longleftrightarrow> l ! i = CHR ''#'' \<and> (i = 0 \<or> 0 < lastSpaceWidth (take i l))"

definition removeInlineComment_claimed :: "string \<Rightarrow> string" where
  "removeInlineComment_claimed l =
     (case find (commentStart_claimed l) [0..<length l] of
        None \<Rightarrow> l
      | Some n \<Rightarrow> trimSpace (take n l))"


section \<open>Evaluation\<close>

lemmas string_defs = byte_def asciiSpace_def isSpaceByte_def utf8Spaces_def hasPrefix_def hasSuffix_def
  trimPrefix_def trimSuffix_def spaceWidth_def lastSpaceWidth_def trimLeft.simps trimRight.simps
  trimSpace_def indexSpace_def fieldsFrom.simps Fields_def upperByte_def lowerByte_def toUpper_def
  toLower_def equalFold_AS_def digit_def natDigits.simps itoa_def hexDigit_def quoteByte_def quote_def

lemmas analyzer_defs = stripContinuation_def removeInlineComment_loop.simps removeInlineComment_def
  readInstructions_def parseInstruction_def descriptorFor_def instructionDescriptors_def Descriptor_def
  buildLayer_def newStage_def ensureStage_loop.simps ensureStage_def setStage_def parseFrom_loop.simps
  parseFrom_def detectCopySourceStage_loop.simps detectCopySourceStage_def copyNotes_def
  fromInstruction_def globalInstruction_def keywordNotes_def stageInstruction_def processInstruction_def
  initialBuilder_def analyzeDockerfile_instructions_def analyzeDockerfile_builder_def analyzeDockerfile_def
  dockerfile_def effectStageStart_def effectFilesystem_def effectMetadata_def effectBuildArg_def Let_def


section \<open>The scenarios of the specification\<close>

text \<open>Scenario A, a single stage with a global \<^verbatim>\<open>ARG\<close>, and scenario B, three stages with
  copies between them, give the reports that the specification expects.\<close>

lemma scenario_A:
  "\<exists>r s. analyzeDockerfile
       (dockerfile [''ARG GLOBAL_VERSION=3.18'', ''FROM alpine:${GLOBAL_VERSION}'',
                    ''RUN apk add --no-cache curl'', ''COPY . /app'', ''WORKDIR /app'',
                    ''CMD ['' @ [CHR 0x22] @ ''./run'' @ [CHR 0x22] @ '']''])
       ''Dockerfile'' = Inr r \<and>
     map (Keyword \<circ> Instruction) (Global r) = [''ARG''] \<and>
     map Effect (Global r) = [effectBuildArg] \<and>
     Stages r = [Some s] \<and> Base (Stage s) = ''alpine:${GLOBAL_VERSION}'' \<and>
     FsLayers s = 2 \<and> MetadataLayers s = 2 \<and> BuildArgs s = 0 \<and> length (Layers s) = 5"
  by (simp add: string_defs analyzer_defs)

lemma scenario_B:
  "\<exists>r s0 s1 s2. analyzeDockerfile
       (dockerfile [''FROM golang:1.22 AS base'', ''FROM base AS builder'', ''ARG VERSION=1.0'',
                    ''COPY --from=base /src /src'', ''FROM scratch'',
                    ''COPY --from=builder /bin/app /bin/app'',
                    ''ENTRYPOINT ['' @ [CHR 0x22] @ ''/bin/app'' @ [CHR 0x22] @ '']''])
       ''Dockerfile'' = Inr r \<and>
     Stages r = [Some s0, Some s1, Some s2] \<and> Name (Stage s0) = ''base'' \<and>
     Notes (Layers s1 ! 2) =
       [''Copies from stage 0 (base). Cache depends on that stage'' @ [CHR 0x27]
          @ ''s output instead of local files.''] \<and>
     Base (Stage s2) = ''scratch'' \<and>
     Notes (Layers s2 ! 1) =
       [''Copies from stage 1 (builder). Cache depends on that stage'' @ [CHR 0x27]
          @ ''s output instead of local files.''] \<and>
     Effect (Layers s2 ! 2) = effectMetadata"
  by (simp add: string_defs analyzer_defs)

section \<open>The descriptor table and \<open>ensureStage\<close>\<close>

lemma effects_distinct:
  "effectStageStart \<noteq> effectFilesystem" "effectStageStart \<noteq> effectMetadata"
  "effectStageStart \<noteq> effectBuildArg" "effectFilesystem \<noteq> effectMetadata"
  "effectFilesystem \<noteq> effectBuildArg" "effectMetadata \<noteq> effectBuildArg"
  by (simp_all add: effectStageStart_def effectFilesystem_def effectMetadata_def effectBuildArg_def)

lemma descriptorFor_FROM: "descriptor.Effect (descriptorFor ''FROM'') = effectStageStart"
  by (simp add: descriptorFor_def instructionDescriptors_def Descriptor_def)

lemma descriptorFor_ARG: "descriptor.Effect (descriptorFor ''ARG'') = effectBuildArg"
  by (simp add: descriptorFor_def instructionDescriptors_def Descriptor_def)

lemma descriptorFor_other:
  "k \<noteq> ''FROM'' \<Longrightarrow>
   descriptor.Effect (descriptorFor k) = effectFilesystem \<or>
   descriptor.Effect (descriptorFor k) = effectMetadata \<or>
   descriptor.Effect (descriptorFor k) = effectBuildArg"
  by (simp add: descriptorFor_def instructionDescriptors_def Descriptor_def)

lemma ensureStage_loop_append:
  "ensureStage_loop stages (int (length stages)) = stages @ [Some (newStage (int (length stages)))]"
  by (subst ensureStage_loop.simps, simp, subst ensureStage_loop.simps, simp)

lemma ensureStage_loop_id:
  "index < int (length stages) \<Longrightarrow> ensureStage_loop stages index = stages"
  by (subst ensureStage_loop.simps) simp

lemma ensureStage_new:
  "ensureStage r (int (length (Stages r))) =
   Inr (r\<lparr>Stages := Stages r @ [Some (newStage (int (length (Stages r))))]\<rparr>, newStage (int (length (Stages r))))"
  by (simp add: ensureStage_def ensureStage_loop_append Let_def)

lemma ensureStage_old:
  "0 \<le> index \<Longrightarrow> index < int (length (Stages r)) \<Longrightarrow> Stages r ! nat index = Some s \<Longrightarrow>
   ensureStage r index = Inr (r, s)"
  by (simp add: ensureStage_def ensureStage_loop_id Let_def)

section \<open>The invariant of the builder\<close>

lemma builder_ok_initial: "builder_ok (initialBuilder p)"
  by (simp add: builder_ok_def initialBuilder_def)

lemma fromInstruction_ok:
  assumes ok: "builder_ok b" and kw: "Keyword inst = ''FROM''"
      and step: "fromInstruction b inst = Inr b'"
  shows "builder_ok b' \<and> length (Stages (rep b')) = length (Stages (rep b)) + 1"
proof -
  let ?n = "length (Stages (rep b))"
  from ok have idx: "stageIndex b + 1 = int ?n" by (simp add: builder_ok_def)
  obtain base al where pf: "parseFrom (Args inst) = (base, al)" by (cases "parseFrom (Args inst)")
  from step idx pf have base: "base \<noteq> []"
    by (auto simp: fromInstruction_def ensureStage_new Let_def split: if_splits)
  define lay where "lay = (let layer = buildLayer inst (descriptorFor (Keyword inst))
                         [''Stage resets here and pulls '' @ quote base @ ''.'']
       in (if al \<noteq> []
                         then layer\<lparr>Notes := Notes layer @
                                [''Alias '' @ quote al
                                 @ '' lets you reference this stage via COPY --from='' @ al @ ''.'']\<rparr>
                         else layer)\<lparr>Number := 1\<rparr>)"
  define st where "st = (newStage (int ?n))\<lparr>Stage := (Stage (newStage (int ?n)))\<lparr>Base := base, Name := al\<rparr>,
        Layers := [lay]\<rparr>"
  from step idx pf base have b': "rep b' = (rep b)\<lparr>Stages := Stages (rep b) @ [Some st]\<rparr>"
      "stageIndex b' = int ?n"
    by (auto simp: fromInstruction_def ensureStage_new Let_def setStage_def st_def lay_def newStage_def)
  have lay: "Number lay = 1" "Effect lay = effectStageStart" "Keyword (Instruction lay) = ''FROM''"
    by (simp_all add: lay_def Let_def buildLayer_def kw descriptorFor_FROM)
  have st_ok: "stage_ok ?n st"
    by (simp add: stage_ok_def st_def newStage_def countEffect_def effects_distinct lay)
  show ?thesis
    using ok st_ok by (auto simp: builder_ok_def b' nth_append less_Suc_eq)
qed


lemma globalInstruction_ok:
  assumes ok: "builder_ok b" and step: "globalInstruction b inst = Inr b'"
  shows "builder_ok b' \<and> length (Stages (rep b')) = length (Stages (rep b))"
proof -
  from step have kw: "Keyword inst = ''ARG''"
    by (auto simp: globalInstruction_def split: if_splits)
  with step ok show ?thesis
    by (auto simp: globalInstruction_def Let_def builder_ok_def buildLayer_def descriptorFor_ARG)
qed

lemma stage_ok_append:
  assumes "stage_ok i s" and "e \<noteq> effectStageStart"
    and "e = effectFilesystem \<or> e = effectMetadata \<or> e = effectBuildArg"
    and "Effect lay = e"
  shows "stage_ok i
     ((if e = effectFilesystem then s\<lparr>FsLayers := FsLayers s + 1\<rparr>
       else if e = effectMetadata then s\<lparr>MetadataLayers := MetadataLayers s + 1\<rparr>
       else if e = effectBuildArg then s\<lparr>BuildArgs := BuildArgs s + 1\<rparr>
       else s)\<lparr>Layers := Layers s @ [lay]\<rparr>)"
  using assms by (auto simp: stage_ok_def countEffect_def effects_distinct)


lemma stageInstruction_ok:
  assumes ok: "builder_ok b" and kw: "Keyword inst \<noteq> ''FROM''" and idx: "stageIndex b \<noteq> -1"
      and step: "stageInstruction b inst = Inr b'"
  shows "builder_ok b' \<and> length (Stages (rep b')) = length (Stages (rep b))"
proof -
  let ?n = "length (Stages (rep b))"
  let ?k = "nat (stageIndex b)"
  from ok idx have k0: "0 \<le> stageIndex b" "stageIndex b < int ?n"
    by (auto simp: builder_ok_def)
  then have k: "0 \<le> stageIndex b" "stageIndex b < int ?n" "?k < ?n"
    by linarith+
  with ok obtain s where s: "Stages (rep b) ! ?k = Some s" "stage_ok ?k s"
    by (auto simp: builder_ok_def)
  have es: "ensureStage (rep b) (stageIndex b) = Inr (rep b, s)"
    using k s by (simp add: ensureStage_old)
  define e where "e = descriptor.Effect (descriptorFor (Keyword inst))"
  have e: "e = effectFilesystem \<or> e = effectMetadata \<or> e = effectBuildArg"
    unfolding e_def using kw by (rule descriptorFor_other)
  then have e': "e \<noteq> effectStageStart" using effects_distinct by auto
  define lay where "lay = (buildLayer inst (descriptorFor (Keyword inst)) [])
      \<lparr>Notes := Notes (buildLayer inst (descriptorFor (Keyword inst)) []) @ keywordNotes inst (stageAliases b),
       Number := int (length (Layers s)) + 1\<rparr>"
  have layE: "Effect lay = e" by (simp add: lay_def buildLayer_def e_def)
  define s' where "s' = (if e = effectFilesystem then s\<lparr>FsLayers := FsLayers s + 1\<rparr>
       else if e = effectMetadata then s\<lparr>MetadataLayers := MetadataLayers s + 1\<rparr>
       else if e = effectBuildArg then s\<lparr>BuildArgs := BuildArgs s + 1\<rparr>
       else s)\<lparr>Layers := Layers s @ [lay]\<rparr>"
  have s'_ok: "stage_ok ?k s'"
    unfolding s'_def using s(2) e' e layE by (rule stage_ok_append)
  from step have b': "b' = b\<lparr>rep := (rep b)\<lparr>Stages := (Stages (rep b))[?k := Some s']\<rparr>\<rparr>"
    unfolding stageInstruction_def es
    by (auto simp: Let_def setStage_def s'_def lay_def buildLayer_def e_def split: if_splits)
  show ?thesis
    using ok s'_ok by (auto simp: builder_ok_def b' nth_list_update)
qed

lemma processInstruction_ok:
  assumes ok: "builder_ok b" and step: "processInstruction b inst = Inr b'"
  shows "builder_ok b' \<and>
         length (Stages (rep b')) = length (Stages (rep b)) + (if Keyword inst = ''FROM'' then 1 else 0)"
  using assms fromInstruction_ok [of b inst b'] globalInstruction_ok [of b inst b']
    stageInstruction_ok [of b inst b']
  by (auto simp: processInstruction_def split: if_splits)

lemma processInstructions_ok:
  "builder_ok b \<Longrightarrow> processInstructions b insts = Inr b' \<Longrightarrow>
   builder_ok b' \<and> length (Stages (rep b')) = length (Stages (rep b)) + countKeyword ''FROM'' insts"
proof (induction insts arbitrary: b)
  case Nil
  then show ?case by (simp add: countKeyword_def)
next
  case (Cons inst insts)
  from Cons.prems(2) obtain b1 where b1: "processInstruction b inst = Inr b1"
      and rest: "processInstructions b1 insts = Inr b'"
    by (auto split: sum.splits)
  from processInstruction_ok [OF Cons.prems(1) b1] Cons.IH [OF _ rest]
  show ?case by (auto simp: countKeyword_def)
qed

lemma analyzeDockerfile_ok:
  assumes "analyzeDockerfile fs path = Inr r"
  shows "\<exists>fullPath instructions b.
           analyzeDockerfile_instructions fs path = Inr (fullPath, instructions) \<and>
           processInstructions (initialBuilder fullPath) instructions = Inr b \<and> r = rep b \<and>
           builder_ok b \<and> length (Stages r) = countKeyword ''FROM'' instructions"
proof -
  from assms obtain b where b: "analyzeDockerfile_builder fs path = Inr b" and r: "r = rep b"
    by (auto simp: analyzeDockerfile_def split: sum.splits)
  from b obtain fullPath instructions
    where i: "analyzeDockerfile_instructions fs path = Inr (fullPath, instructions)"
      and p: "processInstructions (initialBuilder fullPath) instructions = Inr b"
    by (auto simp: analyzeDockerfile_builder_def split: sum.splits)
  from processInstructions_ok [OF builder_ok_initial p]
  have "builder_ok b" "length (Stages (rep b)) = countKeyword ''FROM'' instructions"
    by (simp_all add: initialBuilder_def)
  with i p r show ?thesis by blast
qed

section \<open>Stages and layer counts\<close>

text \<open>
  Claim C1. In the report of a successful analysis every stage report counts its layers by
  effect: \<open>FsLayers\<close>, \<open>MetadataLayers\<close> and \<open>BuildArgs\<close> are the numbers of its layers
  whose effect is filesystem, metadata and build arg, and the layer list has one layer
  more than their sum, the first one, which is the \<^verbatim>\<open>FROM\<close> layer of the stage with the
  effect stage start.
\<close>

theorem stage_counts_roundtrip:
  assumes "analyzeDockerfile fs path = Inr r" and "i < length (Stages r)"
  shows "\<exists>s l ls. Stages r ! i = Some s \<and>
           FsLayers s = int (countEffect effectFilesystem (Layers s)) \<and>
           MetadataLayers s = int (countEffect effectMetadata (Layers s)) \<and>
           BuildArgs s = int (countEffect effectBuildArg (Layers s)) \<and>
           int (length (Layers s)) = FsLayers s + MetadataLayers s + BuildArgs s + 1 \<and>
           Layers s = l # ls \<and> Effect l = effectStageStart \<and>
           Keyword (Instruction l) = ''FROM'' \<and>
           countEffect effectStageStart (Layers s) = 1"
proof -
  from analyzeDockerfile_ok [OF assms(1)] obtain b where b: "r = rep b" "builder_ok b"
    by blast
  with assms(2) obtain s where s: "Stages r ! i = Some s" "stage_ok i s"
    by (auto simp: builder_ok_def)
  from s(2) obtain l ls where l: "Layers s = l # ls" "Effect l = effectStageStart"
      "Keyword (Instruction l) = ''FROM''" "\<forall>l' \<in> set ls. Effect l' \<noteq> effectStageStart"
    by (auto simp: stage_ok_def)
  from l(4) have "filter (\<lambda>l'. Effect l' = effectStageStart) ls = []"
    by (simp add: filter_empty_conv)
  with l have one: "countEffect effectStageStart (Layers s) = 1"
    by (simp add: countEffect_def)
  from s(2) have
    "FsLayers s = int (countEffect effectFilesystem (Layers s))"
    "MetadataLayers s = int (countEffect effectMetadata (Layers s))"
    "BuildArgs s = int (countEffect effectBuildArg (Layers s))"
    "int (length (Layers s)) = FsLayers s + MetadataLayers s + BuildArgs s + 1"
    by (simp_all add: stage_ok_def)
  with s(1) l one show ?thesis by blast
qed

theorem stage_counts_roundtrip_witness:
  "\<exists>r s. analyzeDockerfile (dockerfile [''FROM alpine'', ''RUN make'', ''CMD x'']) ''Dockerfile'' = Inr r \<and>
     0 < length (Stages r) \<and> Stages r ! 0 = Some s \<and>
     FsLayers s = int (countEffect effectFilesystem (Layers s)) \<and>
     MetadataLayers s = int (countEffect effectMetadata (Layers s)) \<and>
     BuildArgs s = int (countEffect effectBuildArg (Layers s)) \<and>
     int (length (Layers s)) = FsLayers s + MetadataLayers s + BuildArgs s + 1 \<and>
     FsLayers s = 1 \<and> MetadataLayers s = 1 \<and> BuildArgs s = 0"
proof -
  let ?fs = "dockerfile [''FROM alpine'', ''RUN make'', ''CMD x'']"
  have "\<exists>r. analyzeDockerfile ?fs ''Dockerfile'' = Inr r \<and> 0 < length (Stages r) \<and>
          (\<forall>s. Stages r ! 0 = Some s \<longrightarrow> FsLayers s = 1 \<and> MetadataLayers s = 1 \<and> BuildArgs s = 0)"
    by (simp add: string_defs analyzer_defs)
  then obtain r where r: "analyzeDockerfile ?fs ''Dockerfile'' = Inr r" "0 < length (Stages r)"
     "\<forall>s. Stages r ! 0 = Some s \<longrightarrow> FsLayers s = 1 \<and> MetadataLayers s = 1 \<and> BuildArgs s = 0"
    by blast
  from stage_counts_roundtrip [OF r(1) r(2)] r show ?thesis by blast
qed

text \<open>
  Claim C2. When the analysis of a Dockerfile succeeds, the report has as many stages as
  the instruction stream has \<^verbatim>\<open>FROM\<close> instructions, and the stage at position \<open>i\<close> has the
  index \<open>i\<close>.
\<close>

theorem stage_count_and_indices:
  assumes "analyzeDockerfile fs path = Inr r"
  shows "\<exists>fullPath instructions.
           analyzeDockerfile_instructions fs path = Inr (fullPath, instructions) \<and>
           length (Stages r) = countKeyword ''FROM'' instructions \<and>
           (\<forall>i < length (Stages r). \<exists>s. Stages r ! i = Some s \<and> Index (Stage s) = int i)"
proof -
  from analyzeDockerfile_ok [OF assms] obtain fullPath instructions b
    where "analyzeDockerfile_instructions fs path = Inr (fullPath, instructions)"
      and "r = rep b" and "builder_ok b"
      and "length (Stages r) = countKeyword ''FROM'' instructions"
    by blast
  then show ?thesis unfolding builder_ok_def stage_ok_def by blast
qed

theorem stage_count_and_indices_witness:
  "\<exists>r. analyzeDockerfile (dockerfile [''FROM a AS x'', ''RUN b'', ''from x'']) ''Dockerfile'' = Inr r \<and>
     length (Stages r) = 2 \<and> (\<exists>s. Stages r ! 1 = Some s \<and> Index (Stage s) = 1)"
proof -
  let ?fs = "dockerfile [''FROM a AS x'', ''RUN b'', ''from x'']"
  have "\<exists>r. analyzeDockerfile ?fs ''Dockerfile'' = Inr r"
    by (simp add: string_defs analyzer_defs)
  then obtain r where r: "analyzeDockerfile ?fs ''Dockerfile'' = Inr r" by blast
  have "\<exists>p insts. analyzeDockerfile_instructions ?fs ''Dockerfile'' = Inr (p, insts) \<and>
          countKeyword ''FROM'' insts = 2"
    by (simp add: string_defs analyzer_defs countKeyword_def)
  with stage_count_and_indices [OF r] have n: "length (Stages r) = 2"
      and a: "\<forall>i < length (Stages r). \<exists>s. Stages r ! i = Some s \<and> Index (Stage s) = int i"
    by auto
  from n have "(1::nat) < length (Stages r)" by simp
  with a obtain s where "Stages r ! 1 = Some s" "Index (Stage s) = int 1" by blast
  with r n show ?thesis by auto
qed

text \<open>
  Claim C10. In the report of a successful analysis every stage has at least one layer;
  its first layer has the number 1, the effect stage start and the keyword \<^verbatim>\<open>FROM\<close>; no
  other layer of the stage, and no layer of the global list, has the effect stage start.
\<close>

theorem stage_start_only_first:
  assumes "analyzeDockerfile fs path = Inr r"
  shows "(\<forall>i < length (Stages r). \<exists>s l ls. Stages r ! i = Some s \<and> Layers s = l # ls \<and>
            Number l = 1 \<and> Effect l = effectStageStart \<and> Keyword (Instruction l) = ''FROM'' \<and>
            (\<forall>l' \<in> set ls. Effect l' \<noteq> effectStageStart)) \<and>
         (\<forall>l \<in> set (Global r). Effect l \<noteq> effectStageStart)"
proof -
  from analyzeDockerfile_ok [OF assms] obtain b where b: "r = rep b" "builder_ok b"
    by blast
  then have "\<forall>l \<in> set (Global r). Effect l = effectBuildArg"
    by (simp add: builder_ok_def)
  then have "\<forall>l \<in> set (Global r). Effect l \<noteq> effectStageStart"
    using effects_distinct(3) by auto
  moreover from b have "\<forall>i < length (Stages r). \<exists>s l ls. Stages r ! i = Some s \<and>
      Layers s = l # ls \<and> Number l = 1 \<and> Effect l = effectStageStart \<and>
      Keyword (Instruction l) = ''FROM'' \<and> (\<forall>l' \<in> set ls. Effect l' \<noteq> effectStageStart)"
    unfolding builder_ok_def stage_ok_def by blast
  ultimately show ?thesis by blast
qed

theorem stage_start_only_first_witness:
  "\<exists>r s l ls. analyzeDockerfile (dockerfile [''ARG v=1'', ''FROM a'', ''COPY . .'']) ''Dockerfile'' = Inr r \<and>
     length (Stages r) = 1 \<and> length (Global r) = 1 \<and>
     Stages r ! 0 = Some s \<and> Layers s = l # ls \<and> length ls = 1 \<and>
     Number l = 1 \<and> Effect l = effectStageStart \<and> Keyword (Instruction l) = ''FROM'' \<and>
     (\<forall>l' \<in> set ls. Effect l' \<noteq> effectStageStart) \<and>
     (\<forall>l \<in> set (Global r). Effect l \<noteq> effectStageStart)"
proof -
  let ?fs = "dockerfile [''ARG v=1'', ''FROM a'', ''COPY . .'']"
  have "\<exists>r. analyzeDockerfile ?fs ''Dockerfile'' = Inr r \<and> length (Stages r) = 1 \<and>
          length (Global r) = 1 \<and> (\<forall>s. Stages r ! 0 = Some s \<longrightarrow> length (Layers s) = 2)"
    by (simp add: string_defs analyzer_defs)
  then obtain r where r: "analyzeDockerfile ?fs ''Dockerfile'' = Inr r" "length (Stages r) = 1"
      "length (Global r) = 1" "\<forall>s. Stages r ! 0 = Some s \<longrightarrow> length (Layers s) = 2"
    by blast
  from stage_start_only_first [OF r(1)] r(2) obtain s l ls where
      s: "Stages r ! 0 = Some s" "Layers s = l # ls" "Number l = 1" "Effect l = effectStageStart"
         "Keyword (Instruction l) = ''FROM''" "\<forall>l' \<in> set ls. Effect l' \<noteq> effectStageStart"
      and g: "\<forall>l \<in> set (Global r). Effect l \<noteq> effectStageStart"
    by auto
  from r(4) s(1,2) have "length ls = 1" by auto
  with r s g show ?thesis by blast
qed

section \<open>One instruction at a time\<close>

lemma ensureStage_loop_length: "index < int (length (ensureStage_loop stages index))"
proof (induction stages index rule: ensureStage_loop.induct)
  case (1 stages index)
  show ?case
  proof (cases "int (length stages) \<le> index")
    case True
    with 1 show ?thesis by (subst ensureStage_loop.simps) simp
  next
    case False
    then show ?thesis by (subst ensureStage_loop.simps) simp
  qed
qed

lemma ensureStage_Inr:
  assumes "0 \<le> index"
  shows "\<exists>r1 st. ensureStage r index = Inr (r1, st) \<and> nat index < length (Stages r1) \<and>
           Stages r1 ! nat index = Some st \<and> Global r1 = Global r \<and> FilePath r1 = FilePath r"
proof -
  let ?ss = "ensureStage_loop (Stages r) index"
  from ensureStage_loop_length [of index "Stages r"] assms have len: "nat index < length ?ss"
    by linarith
  show ?thesis
  proof (cases "?ss ! nat index")
    case None
    with assms len show ?thesis by (simp add: ensureStage_def Let_def)
  next
    case (Some st)
    with assms len show ?thesis by (simp add: ensureStage_def Let_def)
  qed
qed

lemma stageInstruction_result:
  assumes "0 \<le> stageIndex b"
  shows "\<exists>b' s. stageInstruction b inst = Inr b' \<and> stageIndex b' = stageIndex b \<and>
           stageAliases b' = stageAliases b \<and> Global (rep b') = Global (rep b) \<and>
           nat (stageIndex b) < length (Stages (rep b')) \<and>
           Stages (rep b') ! nat (stageIndex b) = Some s \<and> Layers s \<noteq> [] \<and>
           last (Layers s) =
             \<lparr>Number = int (length (Layers s)), Instruction = inst,
              Effect = descriptor.Effect (descriptorFor (Keyword inst)),
              Explanation = descriptor.Explanation (descriptorFor (Keyword inst)),
              CacheHint = descriptor.CacheHint (descriptorFor (Keyword inst)),
              Notes = keywordNotes inst (stageAliases b)\<rparr>"
proof -
  from ensureStage_Inr [OF assms, of "rep b"] obtain r1 st where
    e: "ensureStage (rep b) (stageIndex b) = Inr (r1, st)" "nat (stageIndex b) < length (Stages r1)"
       "Global r1 = Global (rep b)"
    by blast
  show ?thesis
    unfolding stageInstruction_def e(1)
    using e(2,3) by (simp add: Let_def setStage_def buildLayer_def)
qed

lemma fieldsFrom_nonempty: "t \<in> set (fieldsFrom s tok) \<Longrightarrow> t \<noteq> []"
proof (induction s tok rule: fieldsFrom.induct)
  case (1 s tok)
  from "1.prems" show ?case
    by (subst (asm) fieldsFrom.simps) (auto split: if_splits dest: "1.IH")
qed

lemma Fields_nonempty: "t \<in> set (Fields s) \<Longrightarrow> t \<noteq> []"
  by (auto simp: Fields_def dest: fieldsFrom_nonempty)

lemma parseFrom_loop_takeWhile:
  "i \<le> length tokens \<Longrightarrow>
   parseFrom_loop tokens i = i + length (takeWhile (\<lambda>t. hasPrefix t ''--'') (drop i tokens))"
proof (induction tokens i rule: parseFrom_loop.induct)
  case (1 tokens i)
  show ?case
  proof (cases "i < length tokens")
    case True
    then have d: "drop i tokens = tokens ! i # drop (Suc i) tokens"
      by (simp add: Cons_nth_drop_Suc)
    show ?thesis
    proof (cases "hasPrefix (tokens ! i) ''--''")
      case True
      with \<open>i < length tokens\<close> "1.IH" d show ?thesis
        by (subst parseFrom_loop.simps) simp
    next
      case False
      with \<open>i < length tokens\<close> d show ?thesis
        by (subst parseFrom_loop.simps) simp
    qed
  next
    case False
    with "1.prems" show ?thesis by (subst parseFrom_loop.simps) simp
  qed
qed

lemma parseFrom_spec:
  "parseFrom args =
    (case fromBase (Fields args) of
       None \<Rightarrow> ([], [])
     | Some base \<Rightarrow> (base, fromAlias (Fields args)))"
proof -
  let ?P = "\<lambda>t. hasPrefix t ''--''"
  let ?ts = "Fields args"
  let ?n = "length (takeWhile ?P ?ts)"
  have loop: "parseFrom_loop ?ts 0 = ?n"
    using parseFrom_loop_takeWhile [of 0 ?ts] by simp
  have dw: "dropWhile ?P ?ts = drop ?n ?ts"
    by (rule dropWhile_eq_drop)
  have fb: "fromBase ?ts = (case drop ?n ?ts of [] \<Rightarrow> None | x # _ \<Rightarrow> Some x)"
    unfolding fromBase_def dw [symmetric] by (simp add: find_dropWhile comp_def)
  show ?thesis
  proof (cases "?n < length ?ts")
    case False
    then have "drop ?n ?ts = []" by simp
    with False show ?thesis
      by (simp add: parseFrom_def loop fb Let_def)
  next
    case True
    then have d: "drop ?n ?ts = ?ts ! ?n # drop (Suc ?n) ?ts"
      by (simp add: Cons_nth_drop_Suc)
    have al: "fromAlias ?ts =
        (if Suc ?n + 1 < length ?ts \<and> equalFold_AS (?ts ! Suc ?n) then ?ts ! (Suc ?n + 1) else [])"
    proof (cases "Suc ?n + 1 < length ?ts")
      case True
      then have "drop (Suc ?n) ?ts = ?ts ! Suc ?n # ?ts ! (Suc ?n + 1) # drop (Suc ?n + 2) ?ts"
        by (metis Cons_nth_drop_Suc Suc_eq_plus1 Suc_lessD add_2_eq_Suc')
      with True d show ?thesis by (simp add: fromAlias_def dw)
    next
      case False
      then have "length (drop (Suc ?n) ?ts) \<le> 1" by simp
      then have "drop (Suc ?n) ?ts = [] \<or> (\<exists>x. drop (Suc ?n) ?ts = [x])"
        by (cases "drop (Suc ?n) ?ts") (auto simp: le_Suc_eq)
      with False d show ?thesis
        unfolding fromAlias_def dw by (auto simp del: drop_eq_Nil drop_eq_Nil2)
    qed
    from True have "?ts \<noteq> []" by auto
    with True show ?thesis
      by (simp add: parseFrom_def loop fb d al Let_def)
  qed
qed

lemma fromInstruction_result:
  assumes "-1 \<le> stageIndex b" and "parseFrom (Args inst) = (base, al)" and "base \<noteq> []"
  shows "\<exists>b' s. fromInstruction b inst = Inr b' \<and> stageIndex b' = stageIndex b + 1 \<and>
           Global (rep b') = Global (rep b) \<and>
           stageAliases b' =
             (if al \<noteq> [] then (stageAliases b)(toLower al \<mapsto> stageIndex b + 1) else stageAliases b)
               (itoa (stageIndex b + 1) \<mapsto> stageIndex b + 1) \<and>
           nat (stageIndex b') < length (Stages (rep b')) \<and>
           Stages (rep b') ! nat (stageIndex b') = Some s \<and>
           Base (Stage s) = base \<and> Name (Stage s) = al"
proof -
  from assms(1) have "0 \<le> stageIndex b + 1" by simp
  from ensureStage_Inr [OF this, of "rep b"] obtain r1 st where
    e: "ensureStage (rep b) (stageIndex b + 1) = Inr (r1, st)"
       "nat (stageIndex b + 1) < length (Stages r1)" "Global r1 = Global (rep b)"
    by blast
  show ?thesis
    unfolding fromInstruction_def Let_def e(1)
    using e(2,3) assms(2,3) by (simp add: setStage_def)
qed

lemma fromInstruction_fails:
  assumes "-1 \<le> stageIndex b" and "fst (parseFrom (Args inst)) = []"
  shows "fromInstruction b inst =
           Inl (Error (''line '' @ itoa (Line inst) @ '': FROM instruction missing base image''))"
proof -
  from assms(1) have "0 \<le> stageIndex b + 1" by simp
  from ensureStage_Inr [OF this, of "rep b"] obtain r1 st where
    e: "ensureStage (rep b) (stageIndex b + 1) = Inr (r1, st)"
    by blast
  obtain base al where p: "parseFrom (Args inst) = (base, al)" by (cases "parseFrom (Args inst)")
  with assms(2) show ?thesis
    unfolding fromInstruction_def Let_def e(1) by simp
qed

lemma processInstructions_append:
  "processInstructions b (xs @ ys) =
     (case processInstructions b xs of Inl err \<Rightarrow> Inl err | Inr b1 \<Rightarrow> processInstructions b1 ys)"
  by (induction xs arbitrary: b) (auto split: sum.splits)

lemma fromBase_nonempty: "fromBase (Fields args) = Some base \<Longrightarrow> base \<noteq> []"
  by (auto simp: fromBase_def find_Some_iff dest!: Fields_nonempty [OF nth_mem])


lemma not_in_table:
  assumes "instructionDescriptors keyword = None"
  shows "keyword \<noteq> ''FROM'' \<and> keyword \<noteq> ''COPY'' \<and> keyword \<noteq> ''ADD'' \<and> keyword \<noteq> ''RUN'' \<and> keyword \<noteq> ''ARG''"
  using assms by (auto simp: instructionDescriptors_def)


section \<open>\<^verbatim>\<open>FROM\<close>: base image and alias\<close>

text \<open>
  Claim C8. When the analysis reaches a \<^verbatim>\<open>FROM\<close> instruction, the base image of the new stage
  is the first token of the arguments that does not start with \<^verbatim>\<open>--\<close>, and its name is the
  token after an \<^verbatim>\<open>AS\<close>, in any case, that follows the base at once (empty when there is
  none). When the arguments have no such base token, being empty or all flags, the
  analysis fails with the error \<^verbatim>\<open>line N: FROM instruction missing base image\<close>, \<open>N\<close> the
  line of the instruction.
\<close>

theorem from_base_and_alias:
  assumes "analyzeDockerfile_instructions fs path = Inr (fullPath, pre @ inst # post)"
      and "processInstructions (initialBuilder fullPath) pre = Inr b"
      and "Keyword inst = ''FROM''"
  shows "case fromBase (Fields (Args inst)) of
           None \<Rightarrow>
             analyzeDockerfile fs path =
               Inl (Error (''line '' @ itoa (Line inst) @ '': FROM instruction missing base image''))
         | Some base \<Rightarrow>
             \<exists>b' s. processInstruction b inst = Inr b' \<and> stageIndex b' = stageIndex b + 1 \<and>
               Stages (rep b') ! nat (stageIndex b') = Some s \<and>
               Base (Stage s) = base \<and> Name (Stage s) = fromAlias (Fields (Args inst))"
proof -
  from processInstructions_ok [OF builder_ok_initial assms(2)] have "builder_ok b" by simp
  then have idx: "-1 \<le> stageIndex b" by (simp add: builder_ok_def)
  from assms(3) have step: "processInstruction b inst = fromInstruction b inst"
    by (simp add: processInstruction_def)
  show ?thesis
  proof (cases "fromBase (Fields (Args inst))")
    case None
    then have "fst (parseFrom (Args inst)) = []" by (simp add: parseFrom_spec)
    from fromInstruction_fails [OF idx this] step assms(2)
    have "processInstructions (initialBuilder fullPath) (pre @ inst # post) =
            Inl (Error (''line '' @ itoa (Line inst) @ '': FROM instruction missing base image''))"
      by (simp add: processInstructions_append)
    with assms(1) None show ?thesis
      by (simp add: analyzeDockerfile_def analyzeDockerfile_builder_def)
  next
    case (Some base)
    then have p: "parseFrom (Args inst) = (base, fromAlias (Fields (Args inst)))"
      by (simp add: parseFrom_spec)
    from fromInstruction_result [OF idx p fromBase_nonempty [OF Some]] step Some
    show ?thesis by auto
  qed
qed

theorem from_base_and_alias_witness:
  "analyzeDockerfile (dockerfile [''FROM golang:1.22 AS base'', ''from --platform=$P'']) ''Dockerfile''
     = Inl (Error ''line 2: FROM instruction missing base image'')"
proof -
  let ?fs = "dockerfile [''FROM golang:1.22 AS base'', ''from --platform=$P'']"
  let ?i1 = "\<lparr>Line = 1, Keyword = ''FROM'', Args = ''golang:1.22 AS base'', Raw = ''FROM golang:1.22 AS base''\<rparr>"
  let ?i2 = "\<lparr>Line = 2, Keyword = ''FROM'', Args = ''--platform=$P'', Raw = ''from --platform=$P''\<rparr>"
  have i: "analyzeDockerfile_instructions ?fs ''Dockerfile'' = Inr (''Dockerfile'', [?i1] @ ?i2 # [])"
    by (simp add: string_defs analyzer_defs)
  have "\<exists>b. processInstructions (initialBuilder ''Dockerfile'') [?i1] = Inr b"
    by (simp add: string_defs analyzer_defs)
  then obtain b where b: "processInstructions (initialBuilder ''Dockerfile'') [?i1] = Inr b" ..
  have n: "fromBase (Fields (Args ?i2)) = None"
    by (simp add: fromBase_def string_defs)
  have l: "''line '' @ itoa (Line ?i2) @ '': FROM instruction missing base image''
             = ''line 2: FROM instruction missing base image''"
    by (simp add: string_defs)
  from from_base_and_alias [OF i b, simplified n] l show ?thesis by simp
qed


section \<open>Keywords outside the descriptor table\<close>

text \<open>
  Claim C9. For a keyword that the descriptor table does not have, \<open>descriptorFor\<close> returns
  the fallback descriptor: the effect metadata with the generic explanation and cache
  hint. Processing an instruction with such a keyword inside a stage returns no error: it
  appends to the stage a layer with the effect metadata and no notes.
\<close>

theorem unknown_keyword_is_metadata:
  assumes "instructionDescriptors keyword = None"
  shows "descriptorFor keyword =
           Descriptor effectMetadata
             ''Recorded as metadata. It influences how containers start but does not add filesystem content.''
             ''Cache key ties to the literal instruction, so changing text invalidates the layer.'' \<and>
         (\<forall>b inst. Keyword inst = keyword \<and> 0 \<le> stageIndex b \<longrightarrow>
            (\<exists>b'. processInstruction b inst = Inr b')) \<and>
         (\<forall>b inst. Keyword inst = keyword \<and> keyword \<noteq> [] \<and> 0 \<le> stageIndex b \<longrightarrow>
            (\<exists>b' s. processInstruction b inst = Inr b' \<and>
               Stages (rep b') ! nat (stageIndex b) = Some s \<and> Layers s \<noteq> [] \<and>
               Instruction (last (Layers s)) = inst \<and> Effect (last (Layers s)) = effectMetadata \<and>
               Notes (last (Layers s)) = []))"
proof -
  have d: "descriptorFor keyword =
           Descriptor effectMetadata
             ''Recorded as metadata. It influences how containers start but does not add filesystem content.''
             ''Cache key ties to the literal instruction, so changing text invalidates the layer.''"
    using assms by (simp add: descriptorFor_def)
  note k = not_in_table [OF assms]
  have detailed: "\<exists>b' s. processInstruction b inst = Inr b' \<and>
               Stages (rep b') ! nat (stageIndex b) = Some s \<and> Layers s \<noteq> [] \<and>
               Instruction (last (Layers s)) = inst \<and> Effect (last (Layers s)) = effectMetadata \<and>
               Notes (last (Layers s)) = []"
    if "Keyword inst = keyword" "keyword \<noteq> []" "0 \<le> stageIndex b" for b inst
  proof -
    from that k have step: "processInstruction b inst = stageInstruction b inst"
      by (auto simp: processInstruction_def)
    from that k have kn: "keywordNotes inst (stageAliases b) = []"
      by (simp add: keywordNotes_def)
    from stageInstruction_result [OF that(3), of inst] obtain b' s where
      r: "stageInstruction b inst = Inr b'" "Stages (rep b') ! nat (stageIndex b) = Some s"
         "Layers s \<noteq> []"
         "last (Layers s) =
             \<lparr>Number = int (length (Layers s)), Instruction = inst,
              Effect = descriptor.Effect (descriptorFor (Keyword inst)),
              Explanation = descriptor.Explanation (descriptorFor (Keyword inst)),
              CacheHint = descriptor.CacheHint (descriptorFor (Keyword inst)),
              Notes = keywordNotes inst (stageAliases b)\<rparr>"
      by blast
    from r(4) have "Instruction (last (Layers s)) = inst"
        "Effect (last (Layers s)) = effectMetadata" "Notes (last (Layers s)) = []"
      by (simp_all add: that(1) d Descriptor_def kn)
    with r step show ?thesis by auto
  qed
  have "\<exists>b'. processInstruction b inst = Inr b'"
    if "Keyword inst = keyword" "0 \<le> stageIndex b" for b inst
  proof (cases "keyword = []")
    case True
    with that show ?thesis by (simp add: processInstruction_def)
  next
    case False
    from detailed [OF that(1) False that(2)] show ?thesis by blast
  qed
  with d detailed show ?thesis by blast
qed

theorem unknown_keyword_is_metadata_witness:
  "instructionDescriptors ''CHECKPOINT'' = None \<and>
   descriptorFor ''CHECKPOINT'' =
     Descriptor effectMetadata
       ''Recorded as metadata. It influences how containers start but does not add filesystem content.''
       ''Cache key ties to the literal instruction, so changing text invalidates the layer.'' \<and>
   (\<exists>b b'. processInstructions (initialBuilder ''Dockerfile'')
              [\<lparr>Line = 1, Keyword = ''FROM'', Args = ''a'', Raw = ''FROM a''\<rparr>] = Inr b \<and>
            0 \<le> stageIndex b \<and>
            processInstruction b
              \<lparr>Line = 2, Keyword = ''CHECKPOINT'', Args = ''now'', Raw = ''checkpoint now''\<rparr> = Inr b')"
proof -
  have n: "instructionDescriptors ''CHECKPOINT'' = None"
    by (simp add: instructionDescriptors_def)
  have "\<exists>b. processInstructions (initialBuilder ''Dockerfile'')
              [\<lparr>Line = 1, Keyword = ''FROM'', Args = ''a'', Raw = ''FROM a''\<rparr>] = Inr b \<and>
            0 \<le> stageIndex b"
    by (simp add: string_defs analyzer_defs)
  then obtain b where b: "processInstructions (initialBuilder ''Dockerfile'')
              [\<lparr>Line = 1, Keyword = ''FROM'', Args = ''a'', Raw = ''FROM a''\<rparr>] = Inr b"
      "0 \<le> stageIndex b"
    by blast
  from unknown_keyword_is_metadata [OF n] b(2)
  have "descriptorFor ''CHECKPOINT'' =
     Descriptor effectMetadata
       ''Recorded as metadata. It influences how containers start but does not add filesystem content.''
       ''Cache key ties to the literal instruction, so changing text invalidates the layer.''"
    and "\<exists>b'. processInstruction b
              \<lparr>Line = 2, Keyword = ''CHECKPOINT'', Args = ''now'', Raw = ''checkpoint now''\<rparr> = Inr b'"
    by simp_all
  with n b show ?thesis by blast
qed

section \<open>The notes of \<^verbatim>\<open>COPY\<close>\<close>

lemma detectCopySourceStage_loop_ref:
  "i \<le> length tokens \<Longrightarrow>
   detectCopySourceStage_loop tokens i =
     (case copyFromRef (drop i tokens) of None \<Rightarrow> [] | Some ref \<Rightarrow> ref)"
proof (induction tokens i rule: detectCopySourceStage_loop.induct)
  case (1 tokens i)
  show ?case
  proof (cases "i < length tokens")
    case False
    with "1.prems" show ?thesis by (subst detectCopySourceStage_loop.simps) simp
  next
    case True
    then have d: "drop i tokens = tokens ! i # drop (Suc i) tokens"
      by (simp add: Cons_nth_drop_Suc)
    have h: "hd (drop (Suc i) tokens) = tokens ! (i + 1)" if "i + 1 < length tokens"
      using that by (simp add: hd_drop_conv_nth)
    show ?thesis
    proof (cases "hasPrefix (tokens ! i) ''--from=''")
      case True
      with \<open>i < length tokens\<close> d show ?thesis
        by (subst detectCopySourceStage_loop.simps) (simp add: trimPrefix_def Let_def)
    next
      case nf: False
      show ?thesis
      proof (cases "tokens ! i = ''--from'' \<and> i + 1 < length tokens")
        case True
        with nf \<open>i < length tokens\<close> d h show ?thesis
          by (subst detectCopySourceStage_loop.simps) (simp add: Let_def)
      next
        case False
        with nf \<open>i < length tokens\<close> d "1.IH" [OF True refl nf] show ?thesis
          by (subst detectCopySourceStage_loop.simps) (auto simp: Let_def)
      qed
    qed
  qed
qed

lemma copyNotes_amended:
  "copyNotes args aliases =
     (if copyFromRef (Fields args) = Some []
      then [''Takes files from the build context, so editing those files will invalidate this layer.'']
      else copyNotes_claimed args aliases)"
proof -
  have "detectCopySourceStage args =
          (case copyFromRef (Fields args) of None \<Rightarrow> [] | Some ref \<Rightarrow> ref)"
    using detectCopySourceStage_loop_ref [of 0 "Fields args"]
    by (simp add: detectCopySourceStage_def)
  then show ?thesis
    by (auto simp: copyNotes_def copyNotes_claimed_def Let_def split: option.splits)
qed



text \<open>
  Claim C5, as the code has it. A \<^verbatim>\<open>COPY\<close> processed inside a stage appends a layer whose
  one note is chosen by the reference of its first \<^verbatim>\<open>--from=ref\<close> or \<^verbatim>\<open>--from ref\<close> flag:
  when the reference is not empty and the alias table has its lowercased form, the note
  names the index stored there and the reference as written; when the reference is not
  empty and the table has no entry, the note names an external stage or image; when there
  is no such flag, or the reference of the first one is empty (\<^verbatim>\<open>--from=\<close>), the note is
  that of the build context.
\<close>

theorem copy_notes_by_source:
  assumes "Keyword inst = ''COPY''" and "0 \<le> stageIndex b"
  shows "\<exists>b' s. processInstruction b inst = Inr b' \<and>
           Stages (rep b') ! nat (stageIndex b) = Some s \<and> Layers s \<noteq> [] \<and>
           Instruction (last (Layers s)) = inst \<and>
           Notes (last (Layers s)) =
             (case copyFromRef (Fields (Args inst)) of
                None \<Rightarrow>
                  [''Takes files from the build context, so editing those files will invalidate this layer.'']
              | Some ref \<Rightarrow>
                  if ref = []
                  then [''Takes files from the build context, so editing those files will invalidate this layer.'']
                  else
                    (case stageAliases b (toLower ref) of
                       Some idx \<Rightarrow>
                         [''Copies from stage '' @ itoa idx @ '' ('' @ ref
                            @ ''). Cache depends on that stage'' @ [CHR 0x27]
                            @ ''s output instead of local files.'']
                     | None \<Rightarrow>
                         [''Copies from '' @ quote ref @ ''. Make sure the stage or image exists.'']))"
proof -
  from assms have step: "processInstruction b inst = stageInstruction b inst"
    by (auto simp: processInstruction_def)
  from assms(1) have kn: "keywordNotes inst (stageAliases b) = copyNotes (Args inst) (stageAliases b)"
    by (simp add: keywordNotes_def)
  from stageInstruction_result [OF assms(2), of inst] obtain b' s where
    r: "stageInstruction b inst = Inr b'" "Stages (rep b') ! nat (stageIndex b) = Some s"
       "Layers s \<noteq> []"
       "last (Layers s) =
           \<lparr>Number = int (length (Layers s)), Instruction = inst,
            Effect = descriptor.Effect (descriptorFor (Keyword inst)),
            Explanation = descriptor.Explanation (descriptorFor (Keyword inst)),
            CacheHint = descriptor.CacheHint (descriptorFor (Keyword inst)),
            Notes = keywordNotes inst (stageAliases b)\<rparr>"
    by blast
  from r(4) have i: "Instruction (last (Layers s)) = inst"
    and n: "Notes (last (Layers s)) = copyNotes (Args inst) (stageAliases b)"
    by (simp_all add: kn)
  have "copyNotes (Args inst) (stageAliases b) =
             (case copyFromRef (Fields (Args inst)) of
                None \<Rightarrow>
                  [''Takes files from the build context, so editing those files will invalidate this layer.'']
              | Some ref \<Rightarrow>
                  if ref = []
                  then [''Takes files from the build context, so editing those files will invalidate this layer.'']
                  else
                    (case stageAliases b (toLower ref) of
                       Some idx \<Rightarrow>
                         [''Copies from stage '' @ itoa idx @ '' ('' @ ref
                            @ ''). Cache depends on that stage'' @ [CHR 0x27]
                            @ ''s output instead of local files.'']
                     | None \<Rightarrow>
                         [''Copies from '' @ quote ref @ ''. Make sure the stage or image exists.'']))"
    by (simp add: copyNotes_amended copyNotes_claimed_def split: option.splits)
  with r(1-3) i n step show ?thesis by auto
qed

theorem copy_notes_by_source_witness:
  "\<exists>b b' s. processInstructions (initialBuilder ''Dockerfile'')
              [\<lparr>Line = 1, Keyword = ''FROM'', Args = ''golang AS Base'', Raw = ''FROM golang AS Base''\<rparr>] = Inr b \<and>
     0 \<le> stageIndex b \<and>
     processInstruction b
       \<lparr>Line = 2, Keyword = ''COPY'', Args = ''--from=BASE /src /src'', Raw = ''COPY --from=BASE /src /src''\<rparr> = Inr b' \<and>
     Stages (rep b') ! nat (stageIndex b) = Some s \<and>
     Notes (last (Layers s)) =
       [''Copies from stage 0 (BASE). Cache depends on that stage'' @ [CHR 0x27]
          @ ''s output instead of local files.'']"
proof -
  let ?i1 = "\<lparr>Line = 1, Keyword = ''FROM'', Args = ''golang AS Base'', Raw = ''FROM golang AS Base''\<rparr>"
  let ?i2 = "\<lparr>Line = 2, Keyword = ''COPY'', Args = ''--from=BASE /src /src'', Raw = ''COPY --from=BASE /src /src''\<rparr>"
  have "\<exists>b. processInstructions (initialBuilder ''Dockerfile'') [?i1] = Inr b \<and>
            0 \<le> stageIndex b \<and> stageAliases b ''base'' = Some 0"
    by (simp add: string_defs analyzer_defs)
  then obtain b where b: "processInstructions (initialBuilder ''Dockerfile'') [?i1] = Inr b"
      "0 \<le> stageIndex b" "stageAliases b ''base'' = Some 0"
    by blast
  have k: "Keyword ?i2 = ''COPY''" by simp
  have f: "copyFromRef (Fields ''--from=BASE /src /src'') = Some ''BASE''"
    by (simp add: string_defs)
  have l: "toLower ''BASE'' = ''base''" by (simp add: string_defs)
  have i: "itoa 0 = ''0''" by (simp add: string_defs)
  from copy_notes_by_source [OF k b(2)] obtain b' s where
    "processInstruction b ?i2 = Inr b'" "Stages (rep b') ! nat (stageIndex b) = Some s"
    "Notes (last (Layers s)) =
       [''Copies from stage 0 (BASE). Cache depends on that stage'' @ [CHR 0x27]
          @ ''s output instead of local files.'']"
    by (auto simp: f l b(3) i)
  with b show ?thesis by blast
qed

text \<open>
  Claim C5 as the specification states it fails for the flag \<^verbatim>\<open>--from=\<close> with an empty
  reference: the alias table has no entry for it, so the note promised is that of an
  external stage or image, and the code gives the note of the build context.
\<close>

theorem copy_notes_empty_ref_counterexample:
  "copyFromRef (Fields ''--from= . /app'') = Some [] \<and>
   copyNotes_claimed ''--from= . /app'' [''0'' \<mapsto> 0] =
     [''Copies from '' @ quote [] @ ''. Make sure the stage or image exists.''] \<and>
   \<not> isl (analyzeDockerfile (dockerfile [''FROM alpine'', ''COPY --from= . /app'']) ''Dockerfile'') \<and>
   Notes (last (Layers (the (Stages (projr (analyzeDockerfile
       (dockerfile [''FROM alpine'', ''COPY --from= . /app'']) ''Dockerfile'')) ! 0)))) =
     [''Takes files from the build context, so editing those files will invalidate this layer.'']"
  by (simp add: string_defs analyzer_defs copyNotes_claimed_def)

section \<open>The alias table\<close>

lemma registerStage_Some:
  "registerStage m (Some st) k = (if registers st k then Some (Index st) else m k)"
  by (auto simp: registerStage_def registers_def)

lemma aliasesOf_snoc: "aliasesOf (infos @ [so]) = registerStage (aliasesOf infos) so"
  by (simp add: aliasesOf_def)

lemma aliasesOf_last:
  assumes "\<forall>i < length infos. \<exists>st. infos ! i = Some st \<and> Index st = int i"
  shows "(aliasesOf infos k = None \<longrightarrow>
            (\<forall>j st. j < length infos \<and> infos ! j = Some st \<longrightarrow> \<not> registers st k)) \<and>
         (\<forall>v. aliasesOf infos k = Some v \<longrightarrow>
            (\<exists>j st. j < length infos \<and> infos ! j = Some st \<and> registers st k \<and> v = int j \<and>
               (\<forall>j' st'. j < j' \<and> j' < length infos \<and> infos ! j' = Some st' \<longrightarrow>
                  \<not> registers st' k)))"
  using assms
proof (induction infos rule: rev_induct)
  case Nil
  then show ?case by (simp add: aliasesOf_def)
next
  case (snoc so infos)
  from snoc.prems have prev: "\<forall>i < length infos. \<exists>st. infos ! i = Some st \<and> Index st = int i"
    by (metis butlast_snoc length_butlast less_diff_conv nth_butlast trans_less_add1 length_append_singleton less_SucI)
  from snoc.prems obtain st where st: "so = Some st" "Index st = int (length infos)"
    by (metis length_append_singleton lessI nth_append_length)
  note IH = snoc.IH [OF prev]
  show ?case
  proof (cases "registers st k")
    case True
    then have "aliasesOf (infos @ [so]) k = Some (int (length infos))"
      by (simp add: aliasesOf_snoc st registerStage_Some)
    moreover have "\<exists>j st. j < length (infos @ [so]) \<and> (infos @ [so]) ! j = Some st \<and> registers st k \<and>
          int (length infos) = int j \<and>
          (\<forall>j' st'. j < j' \<and> j' < length (infos @ [so]) \<and> (infos @ [so]) ! j' = Some st' \<longrightarrow>
                  \<not> registers st' k)"
      using True st by (intro exI [of _ "length infos"] exI [of _ st]) auto
    ultimately show ?thesis by simp
  next
    case False
    then have eq: "aliasesOf (infos @ [so]) k = aliasesOf infos k"
      by (simp add: aliasesOf_snoc st registerStage_Some)
    have none: "\<forall>j st'. j < length (infos @ [so]) \<and> (infos @ [so]) ! j = Some st' \<longrightarrow> \<not> registers st' k"
      if "aliasesOf infos k = None"
      using that IH False st by (auto simp: nth_append less_Suc_eq)
    have some: "\<exists>j st. j < length (infos @ [so]) \<and> (infos @ [so]) ! j = Some st \<and> registers st k \<and>
          v = int j \<and>
          (\<forall>j' st'. j < j' \<and> j' < length (infos @ [so]) \<and> (infos @ [so]) ! j' = Some st' \<longrightarrow>
                  \<not> registers st' k)"
      if "aliasesOf infos k = Some v" for v
    proof -
      from IH that obtain j st0 where j: "j < length infos" "infos ! j = Some st0" "registers st0 k"
          "v = int j"
          "\<forall>j' st'. j < j' \<and> j' < length infos \<and> infos ! j' = Some st' \<longrightarrow> \<not> registers st' k"
        by blast
      show ?thesis
        using j False st
        by (intro exI [of _ j] exI [of _ st0]) (auto simp: nth_append less_Suc_eq)
    qed
    from none some show ?thesis unfolding eq by blast
  qed
qed


lemma fromInstruction_aliases:
  assumes ok: "builder_ok b" and step: "fromInstruction b inst = Inr b'"
  shows "\<exists>st. stageInfos b' = stageInfos b @ [Some st] \<and>
              stageAliases b' = registerStage (stageAliases b) (Some st)"
proof -
  let ?n = "length (Stages (rep b))"
  from ok have idx: "stageIndex b + 1 = int ?n" by (simp add: builder_ok_def)
  obtain base al where pf: "parseFrom (Args inst) = (base, al)" by (cases "parseFrom (Args inst)")
  from step idx pf have base: "base \<noteq> []"
    by (auto simp: fromInstruction_def ensureStage_new Let_def split: if_splits)
  let ?st = "\<lparr>Index = int ?n, Name = al, Base = base\<rparr>"
  from step idx pf base have "stageInfos b' = stageInfos b @ [Some ?st]"
    by (auto simp: fromInstruction_def ensureStage_new Let_def setStage_def newStage_def stageInfos_def)
  moreover from step idx pf base have "stageAliases b' = registerStage (stageAliases b) (Some ?st)"
    by (auto simp: fromInstruction_def ensureStage_new Let_def registerStage_def)
  ultimately show ?thesis by blast
qed

lemma stageInstruction_aliases:
  assumes ok: "builder_ok b" and idx: "stageIndex b \<noteq> -1"
      and step: "stageInstruction b inst = Inr b'"
  shows "stageInfos b' = stageInfos b \<and> stageAliases b' = stageAliases b"
proof -
  let ?n = "length (Stages (rep b))"
  let ?k = "nat (stageIndex b)"
  from ok idx have k0: "0 \<le> stageIndex b" "stageIndex b < int ?n"
    by (auto simp: builder_ok_def)
  then have k: "?k < ?n" by linarith
  with ok obtain s where s: "Stages (rep b) ! ?k = Some s"
    by (auto simp: builder_ok_def)
  have es: "ensureStage (rep b) (stageIndex b) = Inr (rep b, s)"
    using k0 s by (simp add: ensureStage_old)
  from step obtain s' where b': "b' = b\<lparr>rep := (rep b)\<lparr>Stages := (Stages (rep b))[?k := Some s']\<rparr>\<rparr>"
      and st: "Stage s' = Stage s"
    unfolding stageInstruction_def es
    by (auto simp: Let_def setStage_def split: if_splits)
  have "map (map_option Stage) ((Stages (rep b))[?k := Some s']) = map (map_option Stage) (Stages (rep b))"
    using k s st by (simp add: map_update list_update_same_conv)
  then show ?thesis by (simp add: b' stageInfos_def)
qed

lemma processInstruction_aliases:
  assumes "builder_ok b" and "stageAliases b = aliasesOf (stageInfos b)"
      and "processInstruction b inst = Inr b'"
  shows "stageAliases b' = aliasesOf (stageInfos b')"
proof -
  consider "Keyword inst = []" | "Keyword inst = ''FROM''"
    | "Keyword inst \<noteq> []" "Keyword inst \<noteq> ''FROM''" "stageIndex b = -1"
    | "Keyword inst \<noteq> []" "Keyword inst \<noteq> ''FROM''" "stageIndex b \<noteq> -1"
    by blast
  then show ?thesis
  proof cases
    case 1
    with assms show ?thesis by (simp add: processInstruction_def)
  next
    case 2
    with assms(3) have "fromInstruction b inst = Inr b'" by (simp add: processInstruction_def)
    from fromInstruction_aliases [OF assms(1) this] assms(2) show ?thesis
      by (auto simp: aliasesOf_snoc)
  next
    case 3
    with assms(3) have "globalInstruction b inst = Inr b'" by (simp add: processInstruction_def)
    then have "stageInfos b' = stageInfos b" "stageAliases b' = stageAliases b"
      by (auto simp: globalInstruction_def Let_def stageInfos_def split: if_splits)
    with assms(2) show ?thesis by simp
  next
    case 4
    with assms(3) have "stageInstruction b inst = Inr b'" by (simp add: processInstruction_def)
    from stageInstruction_aliases [OF assms(1) 4(3) this] assms(2) show ?thesis by simp
  qed
qed

lemma processInstructions_aliases:
  "builder_ok b \<Longrightarrow> stageAliases b = aliasesOf (stageInfos b) \<Longrightarrow>
   processInstructions b insts = Inr b' \<Longrightarrow> stageAliases b' = aliasesOf (stageInfos b')"
proof (induction insts arbitrary: b)
  case Nil
  then show ?case by simp
next
  case (Cons inst insts)
  from Cons.prems(3) obtain b1 where b1: "processInstruction b inst = Inr b1"
      and rest: "processInstructions b1 insts = Inr b'"
    by (auto split: sum.splits)
  from processInstruction_ok [OF Cons.prems(1) b1] have ok1: "builder_ok b1" by simp
  from processInstruction_aliases [OF Cons.prems(1,2) b1]
  have "stageAliases b1 = aliasesOf (stageInfos b1)" .
  from Cons.IH [OF ok1 this rest] show ?case .
qed

lemma analyzeDockerfile_builder_ok:
  assumes "analyzeDockerfile_builder fs path = Inr b"
  shows "builder_ok b \<and> stageAliases b = aliasesOf (stageInfos b)"
proof -
  from assms obtain fullPath instructions
    where p: "processInstructions (initialBuilder fullPath) instructions = Inr b"
    by (auto simp: analyzeDockerfile_builder_def split: sum.splits)
  have "stageAliases (initialBuilder fullPath) = aliasesOf (stageInfos (initialBuilder fullPath))"
    by (simp add: initialBuilder_def aliasesOf_def stageInfos_def)
  from processInstructions_aliases [OF builder_ok_initial this p]
    processInstructions_ok [OF builder_ok_initial p]
  show ?thesis by simp
qed


text \<open>
  Claim C3, as the code has it. After a successful analysis, for every stage whose \<^verbatim>\<open>FROM\<close>
  declared an alias, the alias table maps the lowercased alias to the index of the last
  stage that registered that key, as its lowercased alias or as its index in decimal. That
  stage is the given one or a later one: a later \<^verbatim>\<open>FROM\<close> that declares the same alias
  overwrites the entry.
\<close>

theorem alias_lookup_last_wins:
  assumes "analyzeDockerfile_builder fs path = Inr b"
      and "i < length (Stages (rep b))" and "Stages (rep b) ! i = Some s"
      and "Name (Stage s) \<noteq> []"
  shows "\<exists>j s'. i \<le> j \<and> j < length (Stages (rep b)) \<and> Stages (rep b) ! j = Some s' \<and>
           registers (Stage s') (toLower (Name (Stage s))) \<and>
           (\<forall>j' s''. j < j' \<and> j' < length (Stages (rep b)) \<and> Stages (rep b) ! j' = Some s''
               \<longrightarrow> \<not> registers (Stage s'') (toLower (Name (Stage s)))) \<and>
           stageAliases b (toLower (Name (Stage s))) = Some (int j)"
proof -
  let ?k = "toLower (Name (Stage s))"
  let ?infos = "stageInfos b"
  from analyzeDockerfile_builder_ok [OF assms(1)]
  have ok: "builder_ok b" and al: "stageAliases b = aliasesOf ?infos" by simp_all
  have len: "length ?infos = length (Stages (rep b))" by (simp add: stageInfos_def)
  have nth: "?infos ! j = map_option Stage (Stages (rep b) ! j)" if "j < length (Stages (rep b))" for j
    using that by (simp add: stageInfos_def)
  from ok have pos: "\<forall>j < length ?infos. \<exists>st. ?infos ! j = Some st \<and> Index st = int j"
    unfolding len by (auto simp: builder_ok_def stage_ok_def nth)
  note last = aliasesOf_last [OF pos, of ?k]
  have reg: "registers (Stage s) ?k" using assms(4) by (simp add: registers_def)
  have i: "i < length ?infos" "?infos ! i = Some (Stage s)"
    using assms(2,3) by (simp_all add: len nth)
  with last reg obtain v where v: "aliasesOf ?infos ?k = Some v"
    by (cases "aliasesOf ?infos ?k") auto
  with last obtain j st where j: "j < length ?infos" "?infos ! j = Some st" "registers st ?k"
      "v = int j"
      "\<forall>j' st'. j < j' \<and> j' < length ?infos \<and> ?infos ! j' = Some st' \<longrightarrow> \<not> registers st' ?k"
    by blast
  from j(5) i reg have ij: "i \<le> j" by (meson not_le_imp_less)
  from j(1,2) obtain s' where s': "Stages (rep b) ! j = Some s'" "Stage s' = st"
    by (auto simp: len nth)
  have later: "\<not> registers (Stage s'') ?k"
    if "j < j'" "j' < length (Stages (rep b))" "Stages (rep b) ! j' = Some s''" for j' s''
  proof -
    from that have "?infos ! j' = Some (Stage s'')" by (simp add: nth)
    with j(5) that(1,2) show ?thesis unfolding len by blast
  qed
  from ij j(1,3,4) s' later v al show ?thesis
    unfolding len by (intro exI [of _ j] exI [of _ s']) auto
qed


theorem alias_lookup_last_wins_witness:
  "\<exists>b s j s'.
     analyzeDockerfile_builder (dockerfile [''FROM alpine AS build'', ''FROM debian AS build''])
       ''Dockerfile'' = Inr b \<and>
     0 < length (Stages (rep b)) \<and> Stages (rep b) ! 0 = Some s \<and> Name (Stage s) \<noteq> [] \<and>
     0 \<le> j \<and> j < length (Stages (rep b)) \<and> Stages (rep b) ! j = Some s' \<and>
     registers (Stage s') (toLower (Name (Stage s))) \<and>
     stageAliases b (toLower (Name (Stage s))) = Some (int j)"
proof -
  let ?fs = "dockerfile [''FROM alpine AS build'', ''FROM debian AS build'']"
  have "\<exists>b s. analyzeDockerfile_builder ?fs ''Dockerfile'' = Inr b \<and>
          0 < length (Stages (rep b)) \<and> Stages (rep b) ! 0 = Some s \<and> Name (Stage s) \<noteq> []"
    by (simp add: string_defs analyzer_defs)
  then obtain b s where b: "analyzeDockerfile_builder ?fs ''Dockerfile'' = Inr b"
      "0 < length (Stages (rep b))" "Stages (rep b) ! 0 = Some s" "Name (Stage s) \<noteq> []"
    by blast
  from alias_lookup_last_wins [OF b] obtain j s' where
    "0 \<le> j" "j < length (Stages (rep b))" "Stages (rep b) ! j = Some s'"
    "registers (Stage s') (toLower (Name (Stage s)))"
    "stageAliases b (toLower (Name (Stage s))) = Some (int j)"
    by blast
  with b show ?thesis by blast
qed

text \<open>
  Claim C3 as the specification states it fails when two stages declare the same alias:
  stage 0 declared \<^verbatim>\<open>build\<close>, and the table maps \<^verbatim>\<open>build\<close> to 1.
\<close>

theorem alias_write_once_counterexample:
  "\<not> isl (analyzeDockerfile_builder
            (dockerfile [''FROM alpine AS build'', ''FROM debian AS build'']) ''Dockerfile'') \<and>
   Name (Stage (the (Stages (rep (projr (analyzeDockerfile_builder
            (dockerfile [''FROM alpine AS build'', ''FROM debian AS build'']) ''Dockerfile''))) ! 0)))
     = ''build'' \<and>
   stageAliases (projr (analyzeDockerfile_builder
            (dockerfile [''FROM alpine AS build'', ''FROM debian AS build'']) ''Dockerfile''))
       (toLower ''build'') = Some 1"
  by (simp add: string_defs analyzer_defs)

section \<open>White space\<close>

lemma utf8Spaces_bytes: "u \<in> set utf8Spaces \<Longrightarrow> u \<noteq> [] \<and> (\<forall>c \<in> set u. 0x80 \<le> byte c)"
  by (auto simp: utf8Spaces_def byte_def)

lemma find_utf8Spaces_length:
  "find P utf8Spaces = Some u \<Longrightarrow> 0 < length u \<and> u \<in> set utf8Spaces \<and> P u"
proof -
  assume "find P utf8Spaces = Some u"
  then obtain i where "i < length utf8Spaces" "P (utf8Spaces ! i)" "u = utf8Spaces ! i"
    by (auto simp: find_Some_iff)
  then have "u \<in> set utf8Spaces" "P u" by simp_all
  with utf8Spaces_bytes [of u] show ?thesis by simp
qed

lemma hasPrefix_take: "hasPrefix (take n s) u \<Longrightarrow> hasPrefix s u"
proof -
  assume "hasPrefix (take n s) u"
  then have t: "take (length u) (take n s) = u" by (simp add: hasPrefix_def)
  then have "length u \<le> n" by (metis length_take min.cobounded2 min.absorb_iff2 take_all_iff nat_le_linear take_take)
  with t show ?thesis by (simp add: hasPrefix_def min_def)
qed

lemma spaceWidth_take: "0 < spaceWidth (take n s) \<Longrightarrow> 0 < spaceWidth s"
proof -
  assume pos: "0 < spaceWidth (take n s)"
  then obtain c cs where t: "take n s = c # cs" by (cases "take n s") (auto simp: spaceWidth_def)
  then obtain cs' where s: "s = c # cs'" by (cases s; cases n) auto
  show ?thesis
  proof (cases "byte c < 0x80")
    case True
    with pos t s show ?thesis by (auto simp: spaceWidth_def split: if_splits)
  next
    case False
    with pos t obtain u where "find (hasPrefix (take n s)) utf8Spaces = Some u"
      by (auto simp: spaceWidth_def split: option.splits)
    then have u: "u \<in> set utf8Spaces" "hasPrefix (take n s) u"
      by (auto dest: find_utf8Spaces_length)
    then have "hasPrefix s u" by (auto dest: hasPrefix_take)
    with u(1) obtain u' where "find (hasPrefix s) utf8Spaces = Some u'"
      by (cases "find (hasPrefix s) utf8Spaces") (auto simp: find_None_iff)
    with False s show ?thesis
      by (auto simp: spaceWidth_def dest: find_utf8Spaces_length)
  qed
qed

lemma spaceWidth_trimLeft: "spaceWidth (trimLeft s) = 0"
proof (induction s rule: trimLeft.induct)
  case (1 s)
  then show ?case by (subst trimLeft.simps) auto
qed

lemma trimLeft_id: "spaceWidth s = 0 \<Longrightarrow> trimLeft s = s"
  by (subst trimLeft.simps) simp

lemma spaceWidth_trimRight: "spaceWidth s = 0 \<Longrightarrow> spaceWidth (trimRight s) = 0"
proof (induction s rule: trimRight.induct)
  case (1 s)
  show ?case
  proof (cases "0 < lastSpaceWidth s")
    case True
    from "1.prems" have "spaceWidth (take (length s - lastSpaceWidth s) s) = 0"
      using spaceWidth_take [of "length s - lastSpaceWidth s" s] by auto
    with True "1.IH" show ?thesis by (subst trimRight.simps) simp
  next
    case False
    with "1.prems" show ?thesis by (subst trimRight.simps) simp
  qed
qed

lemma spaceWidth_trimSpace: "spaceWidth (trimSpace s) = 0"
  by (simp add: trimSpace_def spaceWidth_trimRight spaceWidth_trimLeft)

lemma whole_space: "0 < lastSpaceWidth s \<Longrightarrow> lastSpaceWidth s = length s \<Longrightarrow> 0 < spaceWidth s"
proof -
  assume pos: "0 < lastSpaceWidth s" and all: "lastSpaceWidth s = length s"
  then obtain c cs where s: "s = c # cs" by (cases s) (auto simp: lastSpaceWidth_def)
  show ?thesis
  proof (cases "byte (last s) < 0x80")
    case True
    with pos all s have "length s = 1" "asciiSpace (last s)"
      by (auto simp: lastSpaceWidth_def split: if_splits)
    with s True show ?thesis by (auto simp: spaceWidth_def)
  next
    case False
    with pos s obtain u where f: "find (hasSuffix s) utf8Spaces = Some u"
      by (auto simp: lastSpaceWidth_def split: option.splits if_splits)
    with False s all have len: "length u = length s"
      by (auto simp: lastSpaceWidth_def)
    from f have u: "u \<in> set utf8Spaces" "hasSuffix s u" by (auto dest: find_utf8Spaces_length)
    with len have su: "s = u" by (simp add: hasSuffix_def)
    with u(1) s have c: "0x80 \<le> byte c" by (auto dest: utf8Spaces_bytes)
    from su u(1) have "hasPrefix s s \<and> s \<in> set utf8Spaces" by (simp add: hasPrefix_def)
    then obtain u' where "find (hasPrefix s) utf8Spaces = Some u'"
      by (cases "find (hasPrefix s) utf8Spaces") (auto simp: find_None_iff)
    with c s show ?thesis
      by (auto simp: spaceWidth_def dest: find_utf8Spaces_length)
  qed
qed

lemma trimRight_Nil: "trimRight s = [] \<Longrightarrow> s = [] \<or> 0 < spaceWidth s"
proof (induction s rule: trimRight.induct)
  case (1 s)
  show ?case
  proof (cases "0 < lastSpaceWidth s")
    case False
    with "1.prems" show ?thesis by (subst (asm) trimRight.simps) simp
  next
    case True
    let ?s' = "take (length s - lastSpaceWidth s) s"
    from True "1.prems" have "trimRight ?s' = []" by (subst (asm) trimRight.simps) simp
    from "1.IH" [OF True this] have "?s' = [] \<or> 0 < spaceWidth ?s'" .
    then show ?thesis
    proof (elim disjE)
      assume "?s' = []"
      with lastSpaceWidth_le [of s] have "lastSpaceWidth s = length s \<or> s = []" by auto
      with True show ?thesis by (auto dest: whole_space)
    next
      assume "0 < spaceWidth ?s'"
      then show ?thesis by (auto dest: spaceWidth_take)
    qed
  qed
qed

lemma trimSpace_Nil_iff: "trimSpace s = [] \<longleftrightarrow> trimLeft s = []"
proof
  assume "trimSpace s = []"
  then have "trimLeft s = [] \<or> 0 < spaceWidth (trimLeft s)"
    unfolding trimSpace_def by (rule trimRight_Nil)
  then show "trimLeft s = []" by (simp add: spaceWidth_trimLeft)
next
  assume "trimLeft s = []"
  then show "trimSpace s = []"
    by (simp add: trimSpace_def trimRight.simps lastSpaceWidth_def)
qed

lemma trimLeft_before_space:
  assumes t: "t \<noteq> []" "spaceWidth t = 0"
  shows "trimLeft (q @ CHR '' '' # t) \<noteq> []"
proof (induction "length q" arbitrary: q rule: less_induct)
  case less
  let ?s = "q @ CHR '' '' # t"
  show ?case
  proof (cases "0 < spaceWidth ?s")
    case False
    then show ?thesis by (subst trimLeft.simps) simp
  next
    case True
    then have unfold: "trimLeft ?s = trimLeft (drop (spaceWidth ?s) ?s)"
      by (subst trimLeft.simps) simp
    show ?thesis
    proof (cases q)
      case Nil
      then have "spaceWidth ?s = 1" by (simp add: spaceWidth_def asciiSpace_def byte_def)
      with Nil unfold t show ?thesis by (simp add: trimLeft_id)
    next
      case (Cons c q')
      show ?thesis
      proof (cases "byte c < 0x80")
        case lt: True
        with True Cons have "spaceWidth ?s = 1" by (auto simp: spaceWidth_def split: if_splits)
        with unfold Cons have "trimLeft ?s = trimLeft (q' @ CHR '' '' # t)" by simp
        with less [of q'] Cons show ?thesis by simp
      next
        case ge: False
        with True Cons obtain u where f: "find (hasPrefix ?s) utf8Spaces = Some u"
          by (auto simp: spaceWidth_def split: option.splits)
        with ge Cons have w: "spaceWidth ?s = length u" by (simp add: spaceWidth_def)
        from f have u: "0 < length u" "u \<in> set utf8Spaces" "hasPrefix ?s u"
          by (auto dest: find_utf8Spaces_length)
        have le: "length u \<le> length q"
        proof (rule ccontr)
          assume "\<not> length u \<le> length q"
          then have lt: "length q < length u" by simp
          from u(3) have "take (length u) ?s = u" by (simp add: hasPrefix_def)
          then have "u ! length q = take (length u) ?s ! length q" by simp
          also from lt have "\<dots> = ?s ! length q" by (rule nth_take)
          also have "\<dots> = CHR '' ''" by (simp add: nth_append)
          finally have "CHR '' '' \<in> set u" using lt by (metis nth_mem)
          with u(2) have "0x80 \<le> byte (CHR '' '')" by (auto dest: utf8Spaces_bytes)
          then show False by (simp add: byte_def)
        qed
        then have "drop (length u) ?s = drop (length u) q @ CHR '' '' # t" by simp
        with unfold w have "trimLeft ?s = trimLeft (drop (length u) q @ CHR '' '' # t)" by simp
        moreover from u(1) Cons have "length (drop (length u) q) < length q" by simp
        ultimately show ?thesis using less by simp
      qed
    qed
  qed
qed


section \<open>The instruction stream\<close>

text \<open>What the line assembler emits is never blank, so every instruction that reaches the
  builder has a keyword.\<close>

lemma removeInlineComment_loop_cases:
  "removeInlineComment_loop l i = l \<or> (\<exists>n. removeInlineComment_loop l i = trimSpace (take n l))"
proof (induction l i rule: removeInlineComment_loop.induct)
  case (1 l i)
  then show ?case by (subst (1 2) removeInlineComment_loop.simps) auto
qed

lemma removeInlineComment_trimmed:
  "spaceWidth (removeInlineComment (trimSpace s)) = 0"
  using removeInlineComment_loop_cases [of "trimSpace s" 0]
  by (auto simp: removeInlineComment_def spaceWidth_trimSpace)

lemma emitted_not_blank:
  assumes "t \<noteq> []" "spaceWidth t = 0"
  shows "trimSpace ((if length current = 0 then current else current @ '' '') @ t) \<noteq> []"
proof (cases "length current = 0")
  case True
  with assms show ?thesis by (simp add: trimSpace_Nil_iff trimLeft_id)
next
  case False
  with trimLeft_before_space [OF assms, of current] show ?thesis
    by (simp add: trimSpace_Nil_iff)
qed

lemma readInstructions_loop_not_blank:
  assumes "\<forall>raw \<in> set instructions. trimSpace (rtext raw) \<noteq> []"
  shows "\<forall>raw \<in> set (snd (readInstructions_loop ls line current currentLine instructions)).
           trimSpace (rtext raw) \<noteq> []"
  using assms
proof (induction ls arbitrary: line current currentLine instructions)
  case Nil
  then show ?case by simp
next
  case (Cons l ls)
  let ?t = "removeInlineComment (trimSpace l)"
  have sw: "spaceWidth ?t = 0" by (rule removeInlineComment_trimmed)
  show ?case
  proof (cases "trimSpace l = [] \<or> hasPrefix (trimSpace l) ''#'' \<or> ?t = []")
    case True
    with Cons.IH [OF Cons.prems] show ?thesis by (auto simp: Let_def)
  next
    case False
    then have t: "?t \<noteq> []" by simp
    show ?thesis
    proof (cases "hasSuffix ?t [CHR 0x5C]")
      case True
      with False Cons.IH [OF Cons.prems] show ?thesis
        by (simp add: Let_def stripContinuation_def)
    next
      case nc: False
      let ?raw = "\<lparr>rline = (if length current = 0 then line else currentLine),
                   rtext = (if length current = 0 then current else current @ '' '') @ ?t\<rparr>"
      from emitted_not_blank [OF t sw, of current] Cons.prems
      have "\<forall>raw \<in> set (instructions @ [?raw]). trimSpace (rtext raw) \<noteq> []" by auto
      from Cons.IH [OF this] False nc show ?thesis
        by (simp add: Let_def stripContinuation_def)
    qed
  qed
qed

lemma indexSpaceFrom_range: "indexSpaceFrom s i = -1 \<or> i \<le> indexSpaceFrom s i"
  by (induction s arbitrary: i) (auto, force)

lemma indexSpace_pos:
  assumes "s \<noteq> []" "spaceWidth s = 0"
  shows "indexSpace s = -1 \<or> 1 \<le> indexSpace s"
proof -
  from assms obtain c cs where s: "s = c # cs" by (cases s) auto
  with assms(2) have "indexSpace s = indexSpaceFrom cs 1" by (simp add: indexSpace_def)
  with indexSpaceFrom_range [of cs 1] show ?thesis by auto
qed

lemma parseInstruction_keyword:
  assumes "trimSpace (rtext raw) \<noteq> []"
  shows "\<exists>inst. parseInstruction raw = Inr inst \<and> Keyword inst \<noteq> []"
proof -
  let ?t = "trimSpace (rtext raw)"
  from indexSpace_pos [OF assms spaceWidth_trimSpace]
  have "indexSpace ?t = -1 \<or> 1 \<le> indexSpace ?t" .
  then show ?thesis
  proof
    assume "indexSpace ?t = -1"
    with assms show ?thesis by (simp add: parseInstruction_def Let_def toUpper_def)
  next
    assume i: "1 \<le> indexSpace ?t"
    then have "indexSpace ?t \<noteq> -1" by simp
    moreover from i assms have "take (nat (indexSpace ?t)) ?t \<noteq> []" by auto
    ultimately show ?thesis using assms by (simp add: parseInstruction_def Let_def toUpper_def)
  qed
qed

lemma parseInstructions_keywords:
  "\<forall>raw \<in> set raws. trimSpace (rtext raw) \<noteq> [] \<Longrightarrow> parseInstructions raws = Inr insts \<Longrightarrow>
   \<forall>inst \<in> set insts. Keyword inst \<noteq> []"
proof (induction raws arbitrary: insts)
  case Nil
  then show ?case by simp
next
  case (Cons raw raws)
  from Cons.prems(1) parseInstruction_keyword [of raw] obtain inst where
    i: "parseInstruction raw = Inr inst" "Keyword inst \<noteq> []" by auto
  with Cons.prems(2) obtain rest where r: "parseInstructions raws = Inr rest" "insts = inst # rest"
    by (auto split: sum.splits)
  from Cons.IH [OF _ r(1)] Cons.prems(1) i(2) r(2) show ?case by simp
qed

lemma instructions_have_keywords:
  assumes "analyzeDockerfile_instructions fs path = Inr (fullPath, instructions)"
  shows "\<forall>inst \<in> set instructions. Keyword inst \<noteq> []"
proof -
  from assms obtain raws where r: "readInstructions fs fullPath = Inr raws"
      and p: "parseInstructions raws = Inr instructions"
    by (auto simp: analyzeDockerfile_instructions_def split: sum.splits if_splits)
  from r obtain f :: osFile and cur where "readInstructions_loop (Lines f) 1 [] 0 [] = (cur, raws)"
    by (auto simp: readInstructions_def Let_def split: sum.splits option.splits prod.splits if_splits)
  then have "raws = snd (readInstructions_loop (Lines f) 1 [] 0 [])" by simp
  with readInstructions_loop_not_blank [of "[]" "Lines f" 1 "[]" 0]
  have "\<forall>raw \<in> set raws. trimSpace (rtext raw) \<noteq> []" by simp
  from parseInstructions_keywords [OF this p] show ?thesis .
qed

section \<open>Before the first \<^verbatim>\<open>FROM\<close>\<close>

lemma globalInstruction_ARG:
  assumes "Keyword inst = ''ARG''"
  shows "\<exists>l. globalInstruction b inst = Inr (b\<lparr>rep := (rep b)\<lparr>Global := Global (rep b) @ [l]\<rparr>\<rparr>) \<and>
             Instruction l = inst \<and> Effect l = effectBuildArg \<and>
             Number l = int (length (Global (rep b))) + 1"
proof -
  let ?l = "\<lparr>Number = int (length (Global (rep b))) + 1, Instruction = inst,
             Effect = effectBuildArg,
             Explanation = descriptor.Explanation (descriptorFor ''ARG''),
             CacheHint = descriptor.CacheHint (descriptorFor ''ARG''),
             Notes = [''This ARG applies globally and can be referenced in the first FROM.'']\<rparr>"
  from assms have "globalInstruction b inst = Inr (b\<lparr>rep := (rep b)\<lparr>Global := Global (rep b) @ [?l]\<rparr>\<rparr>)"
    by (simp add: globalInstruction_def Let_def buildLayer_def descriptorFor_ARG)
  then show ?thesis by (intro exI [of _ ?l]) simp
qed

lemma args_before_from:
  "stageIndex b = -1 \<Longrightarrow> \<forall>inst \<in> set pre. Keyword inst = ''ARG'' \<Longrightarrow>
   \<exists>b'. processInstructions b pre = Inr b' \<and> stageIndex b' = -1 \<and>
     map Instruction (Global (rep b')) = map Instruction (Global (rep b)) @ pre \<and>
     (\<forall>l \<in> set (Global (rep b')). l \<in> set (Global (rep b)) \<or> Effect l = effectBuildArg)"
proof (induction pre arbitrary: b)
  case Nil
  then show ?case by simp
next
  case (Cons inst pre)
  from Cons.prems(2) have k: "Keyword inst = ''ARG''" by simp
  from globalInstruction_ARG [OF k, of b] obtain l where
    l: "globalInstruction b inst = Inr (b\<lparr>rep := (rep b)\<lparr>Global := Global (rep b) @ [l]\<rparr>\<rparr>)"
       "Instruction l = inst" "Effect l = effectBuildArg"
    by blast
  let ?b1 = "b\<lparr>rep := (rep b)\<lparr>Global := Global (rep b) @ [l]\<rparr>\<rparr>"
  from k Cons.prems(1) l(1) have step: "processInstruction b inst = Inr ?b1"
    by (simp add: processInstruction_def)
  from Cons.prems have "stageIndex ?b1 = -1" "\<forall>inst \<in> set pre. Keyword inst = ''ARG''" by simp_all
  from Cons.IH [OF this] obtain b' where
    b': "processInstructions ?b1 pre = Inr b'" "stageIndex b' = -1"
        "map Instruction (Global (rep b')) = map Instruction (Global (rep ?b1)) @ pre"
        "\<forall>l' \<in> set (Global (rep b')). l' \<in> set (Global (rep ?b1)) \<or> Effect l' = effectBuildArg"
    by blast
  from b'(4) l(3) have "\<forall>l' \<in> set (Global (rep b')). l' \<in> set (Global (rep b)) \<or> Effect l' = effectBuildArg"
    by auto
  with step b'(1,2,3) l(2) show ?case by simp
qed

lemma other_before_from:
  "stageIndex b = -1 \<Longrightarrow> \<forall>inst \<in> set pre. Keyword inst \<noteq> [] \<and> Keyword inst \<noteq> ''FROM'' \<Longrightarrow>
   find (\<lambda>inst. Keyword inst \<noteq> ''ARG'') pre = Some bad \<Longrightarrow>
   processInstructions b (pre @ rest) =
     Inl (Error (''line '' @ itoa (Line bad) @ '': Dockerfile must start with FROM (found ''
                   @ Keyword bad @ '')''))"
proof (induction pre arbitrary: b)
  case Nil
  then show ?case by simp
next
  case (Cons inst pre)
  from Cons.prems(2) have k: "Keyword inst \<noteq> []" "Keyword inst \<noteq> ''FROM''" by simp_all
  show ?case
  proof (cases "Keyword inst = ''ARG''")
    case True
    from globalInstruction_ARG [OF True, of b] obtain l where
      l: "globalInstruction b inst = Inr (b\<lparr>rep := (rep b)\<lparr>Global := Global (rep b) @ [l]\<rparr>\<rparr>)"
      by blast
    let ?b1 = "b\<lparr>rep := (rep b)\<lparr>Global := Global (rep b) @ [l]\<rparr>\<rparr>"
    from True Cons.prems(1) l have step: "processInstruction b inst = Inr ?b1"
      by (simp add: processInstruction_def)
    from Cons.prems True have "stageIndex ?b1 = -1"
        "\<forall>inst \<in> set pre. Keyword inst \<noteq> [] \<and> Keyword inst \<noteq> ''FROM''"
        "find (\<lambda>inst. Keyword inst \<noteq> ''ARG'') pre = Some bad"
      by simp_all
    from Cons.IH [OF this] step show ?thesis by simp
  next
    case False
    with Cons.prems(3) have "bad = inst" by simp
    with False k Cons.prems(1) show ?thesis
      by (simp add: processInstruction_def globalInstruction_def)
  qed
qed

lemma global_frozen_step:
  assumes "-1 \<le> stageIndex b" and "Keyword inst = ''FROM'' \<or> 0 \<le> stageIndex b"
      and "processInstruction b inst = Inr b'"
  shows "Global (rep b') = Global (rep b) \<and> 0 \<le> stageIndex b'"
proof -
  consider "Keyword inst = ''FROM''" | "Keyword inst = []" "0 \<le> stageIndex b"
    | "Keyword inst \<noteq> ''FROM''" "Keyword inst \<noteq> []" "0 \<le> stageIndex b"
    using assms(2) by blast
  then show ?thesis
  proof cases
    case 1
    with assms(3) have f: "fromInstruction b inst = Inr b'" by (simp add: processInstruction_def)
    obtain base al where p: "parseFrom (Args inst) = (base, al)" by (cases "parseFrom (Args inst)")
    have "base \<noteq> []"
    proof
      assume "base = []"
      with p have "fst (parseFrom (Args inst)) = []" by simp
      from fromInstruction_fails [OF assms(1) this] f show False by simp
    qed
    from fromInstruction_result [OF assms(1) p this] f assms(1) show ?thesis by auto
  next
    case 2
    with assms(3) show ?thesis by (simp add: processInstruction_def)
  next
    case 3
    with assms(3) have "stageInstruction b inst = Inr b'"
      by (auto simp: processInstruction_def split: if_splits)
    with stageInstruction_result [OF 3(3), of inst] 3(3) show ?thesis by auto
  qed
qed

lemma global_frozen:
  "0 \<le> stageIndex b \<Longrightarrow> processInstructions b insts = Inr b' \<Longrightarrow>
   Global (rep b') = Global (rep b)"
proof (induction insts arbitrary: b)
  case Nil
  then show ?case by simp
next
  case (Cons inst insts)
  from Cons.prems(2) obtain b1 where b1: "processInstruction b inst = Inr b1"
      and rest: "processInstructions b1 insts = Inr b'"
    by (auto split: sum.splits)
  from Cons.prems(1) have "-1 \<le> stageIndex b" "Keyword inst = ''FROM'' \<or> 0 \<le> stageIndex b"
    by simp_all
  from global_frozen_step [OF this b1] Cons.IH [OF _ rest] show ?case by simp
qed

lemma global_frozen_from:
  assumes "stageIndex b = -1" and "insts = [] \<or> Keyword (hd insts) = ''FROM''"
      and "processInstructions b insts = Inr b'"
  shows "Global (rep b') = Global (rep b)"
proof (cases insts)
  case Nil
  with assms(3) show ?thesis by simp
next
  case (Cons inst rest)
  with assms(2) have k: "Keyword inst = ''FROM''" by simp
  from assms(3) Cons obtain b1 where b1: "processInstruction b inst = Inr b1"
      and r: "processInstructions b1 rest = Inr b'"
    by (auto split: sum.splits)
  from assms(1) have "-1 \<le> stageIndex b" by simp
  from global_frozen_step [OF this _ b1] k have "Global (rep b1) = Global (rep b)" "0 \<le> stageIndex b1"
    by simp_all
  with global_frozen [OF _ r] show ?thesis by simp
qed


text \<open>
  Claim C4. Let the instruction stream of a Dockerfile be given. When the analysis
  succeeds, the instructions of the global list are, in order, the instructions before the
  first \<^verbatim>\<open>FROM\<close>; all of them are \<^verbatim>\<open>ARG\<close> instructions and their layers have the effect
  build arg. When an instruction before the first \<^verbatim>\<open>FROM\<close> has a keyword other than \<^verbatim>\<open>ARG\<close>,
  the analysis fails, with no report, with the error
  \<^verbatim>\<open>line N: Dockerfile must start with FROM (found KEYWORD)\<close> for the first such
  instruction.
\<close>

theorem args_before_first_from:
  assumes "analyzeDockerfile_instructions fs path = Inr (fullPath, instructions)"
  shows "(\<forall>r. analyzeDockerfile fs path = Inr r \<longrightarrow>
            map Instruction (Global r) = takeWhile (\<lambda>inst. Keyword inst \<noteq> ''FROM'') instructions \<and>
            (\<forall>l \<in> set (Global r). Keyword (Instruction l) = ''ARG'' \<and> Effect l = effectBuildArg)) \<and>
         (\<forall>bad. find (\<lambda>inst. Keyword inst \<noteq> ''ARG'')
                   (takeWhile (\<lambda>inst. Keyword inst \<noteq> ''FROM'') instructions) = Some bad \<longrightarrow>
            analyzeDockerfile fs path =
              Inl (Error (''line '' @ itoa (Line bad) @ '': Dockerfile must start with FROM (found ''
                            @ Keyword bad @ '')'')))"
proof -
  let ?P = "\<lambda>inst. Keyword inst \<noteq> ''FROM''"
  let ?pre = "takeWhile ?P instructions"
  let ?post = "dropWhile ?P instructions"
  let ?b0 = "initialBuilder fullPath"
  have split: "instructions = ?pre @ ?post" by simp
  have idx0: "stageIndex ?b0 = -1" and g0: "Global (rep ?b0) = []"
    by (simp_all add: initialBuilder_def)
  from instructions_have_keywords [OF assms]
  have kw: "\<forall>inst \<in> set ?pre. Keyword inst \<noteq> [] \<and> Keyword inst \<noteq> ''FROM''"
    by (auto dest: set_takeWhileD)
  have run: "analyzeDockerfile fs path =
      (case processInstructions ?b0 (?pre @ ?post) of Inl err \<Rightarrow> Inl err | Inr b \<Rightarrow> Inr (rep b))"
    using assms by (simp add: analyzeDockerfile_def analyzeDockerfile_builder_def split: sum.splits)
  have bad: "analyzeDockerfile fs path =
              Inl (Error (''line '' @ itoa (Line bad) @ '': Dockerfile must start with FROM (found ''
                            @ Keyword bad @ '')''))"
    if "find (\<lambda>inst. Keyword inst \<noteq> ''ARG'') ?pre = Some bad" for bad
    unfolding run using other_before_from [OF idx0 kw that, of ?post] by simp
  have good: "map Instruction (Global r) = ?pre \<and>
            (\<forall>l \<in> set (Global r). Keyword (Instruction l) = ''ARG'' \<and> Effect l = effectBuildArg)"
    if r: "analyzeDockerfile fs path = Inr r" for r
  proof -
    have args: "\<forall>inst \<in> set ?pre. Keyword inst = ''ARG''"
    proof (rule ccontr)
      assume "\<not> ?thesis"
      then obtain bad where "find (\<lambda>inst. Keyword inst \<noteq> ''ARG'') ?pre = Some bad"
        by (cases "find (\<lambda>inst. Keyword inst \<noteq> ''ARG'') ?pre") (auto simp: find_None_iff)
      from bad [OF this] r show False by simp
    qed
    from args_before_from [OF idx0 args] g0 obtain b1 where
      b1: "processInstructions ?b0 ?pre = Inr b1" "stageIndex b1 = -1"
          "map Instruction (Global (rep b1)) = ?pre"
          "\<forall>l \<in> set (Global (rep b1)). Effect l = effectBuildArg"
      by auto
    from r run obtain b where full: "processInstructions ?b0 (?pre @ ?post) = Inr b" and rb: "r = rep b"
      by (cases "processInstructions ?b0 (?pre @ ?post)") auto
    from full b1(1) have "processInstructions b1 ?post = Inr b"
      unfolding processInstructions_append by simp
    note b = this rb
    have "?post = [] \<or> Keyword (hd ?post) = ''FROM''"
      using hd_dropWhile [of ?P instructions] by auto
    from global_frozen_from [OF b1(2) this b(1)] b(2) have g: "Global r = Global (rep b1)" by simp
    have "Keyword (Instruction l) = ''ARG''" if "l \<in> set (Global r)" for l
    proof -
      from that have "Instruction l \<in> set (map Instruction (Global r))" by simp
      with g b1(3) args show ?thesis by simp
    qed
    with g b1(3,4) show ?thesis by simp
  qed
  from good bad show ?thesis by blast
qed

theorem args_before_first_from_witness:
  "analyzeDockerfile (dockerfile [''ARG V=1'', ''run make'', ''FROM a'']) ''Dockerfile''
     = Inl (Error ''line 2: Dockerfile must start with FROM (found RUN)'') \<and>
   (\<exists>r. analyzeDockerfile (dockerfile [''ARG V=1'', ''FROM a:$V'']) ''Dockerfile'' = Inr r \<and>
      map Instruction (Global r) = [\<lparr>Line = 1, Keyword = ''ARG'', Args = ''V=1'', Raw = ''ARG V=1''\<rparr>] \<and>
      (\<forall>l \<in> set (Global r). Keyword (Instruction l) = ''ARG'' \<and> Effect l = effectBuildArg))"
proof -
  let ?arg = "\<lparr>Line = 1, Keyword = ''ARG'', Args = ''V=1'', Raw = ''ARG V=1''\<rparr>"
  let ?run = "\<lparr>Line = 2, Keyword = ''RUN'', Args = ''make'', Raw = ''run make''\<rparr>"
  let ?from1 = "\<lparr>Line = 3, Keyword = ''FROM'', Args = ''a'', Raw = ''FROM a''\<rparr>"
  let ?from2 = "\<lparr>Line = 2, Keyword = ''FROM'', Args = ''a:$V'', Raw = ''FROM a:$V''\<rparr>"
  let ?fs1 = "dockerfile [''ARG V=1'', ''run make'', ''FROM a'']"
  let ?fs2 = "dockerfile [''ARG V=1'', ''FROM a:$V'']"
  have i1: "analyzeDockerfile_instructions ?fs1 ''Dockerfile'' = Inr (''Dockerfile'', [?arg, ?run, ?from1])"
    by (simp add: string_defs analyzer_defs)
  have i2: "analyzeDockerfile_instructions ?fs2 ''Dockerfile'' = Inr (''Dockerfile'', [?arg, ?from2])"
    by (simp add: string_defs analyzer_defs)
  have f: "find (\<lambda>inst. Keyword inst \<noteq> ''ARG'')
             (takeWhile (\<lambda>inst. Keyword inst \<noteq> ''FROM'') [?arg, ?run, ?from1]) = Some ?run"
    by simp
  have m: "''line '' @ itoa (Line ?run) @ '': Dockerfile must start with FROM (found '' @ Keyword ?run @ '')''
             = ''line 2: Dockerfile must start with FROM (found RUN)''"
    by (simp add: string_defs)
  from args_before_first_from [OF i1] f m
  have e: "analyzeDockerfile ?fs1 ''Dockerfile''
             = Inl (Error ''line 2: Dockerfile must start with FROM (found RUN)'')"
    by simp
  have "\<exists>r. analyzeDockerfile ?fs2 ''Dockerfile'' = Inr r"
    by (simp add: string_defs analyzer_defs)
  then obtain r where r: "analyzeDockerfile ?fs2 ''Dockerfile'' = Inr r" ..
  with args_before_first_from [OF i2]
  have "map Instruction (Global r) = takeWhile (\<lambda>inst. Keyword inst \<noteq> ''FROM'') [?arg, ?from2]"
      "\<forall>l \<in> set (Global r). Keyword (Instruction l) = ''ARG'' \<and> Effect l = effectBuildArg"
    by simp_all
  then have g: "map Instruction (Global r) = [?arg]"
      "\<forall>l \<in> set (Global r). Keyword (Instruction l) = ''ARG'' \<and> Effect l = effectBuildArg"
    by simp_all
  from r g have "\<exists>r. analyzeDockerfile ?fs2 ''Dockerfile'' = Inr r \<and>
      map Instruction (Global r) = [?arg] \<and>
      (\<forall>l \<in> set (Global r). Keyword (Instruction l) = ''ARG'' \<and> Effect l = effectBuildArg)"
    by (intro exI [of _ r] conjI)
  with e show ?thesis by (rule conjI)
qed


section \<open>Inline comments\<close>

text \<open>What \<open>removeInlineComment\<close> computes: it cuts the line at the first offset that
  \<open>commentStart\<close> accepts and trims what is left, or returns the line as it is.\<close>

lemma isSpaceByte_ascii: "byte c < 0x80 \<Longrightarrow> isSpaceByte c \<longleftrightarrow> asciiSpace c"
  by (simp add: isSpaceByte_def)

lemma removeInlineComment_loop_find:
  "i \<le> length l \<Longrightarrow>
   removeInlineComment_loop l i =
     (case find (commentStart l) [i..<length l] of
        None \<Rightarrow> l
      | Some n \<Rightarrow> trimSpace (take n l))"
proof (induction l i rule: removeInlineComment_loop.induct)
  case (1 l i)
  show ?case
  proof (cases "i < length l")
    case False
    with "1.prems" show ?thesis by (subst removeInlineComment_loop.simps) simp
  next
    case True
    then have u: "[i..<length l] = i # [i + 1..<length l]" by (simp add: upt_conv_Cons)
    show ?thesis
    proof (cases "commentStart l i")
      case c: True
      then have "l ! i = CHR ''#'' \<and> (i = 0 \<or> isSpaceByte (l ! (i - 1)))"
        by (simp add: commentStart_def)
      with True c show ?thesis
        by (subst removeInlineComment_loop.simps) (simp add: u)
    next
      case c: False
      then have n: "\<not> (l ! i = CHR ''#'' \<and> (i = 0 \<or> isSpaceByte (l ! (i - 1))))"
        by (simp add: commentStart_def)
      from True have "i + 1 \<le> length l" by simp
      from "1.IH" [OF True n this]
      have "removeInlineComment_loop l (i + 1) =
              (case find (commentStart l) [i + 1..<length l] of
                 None \<Rightarrow> l | Some n \<Rightarrow> trimSpace (take n l))" .
      moreover from True n have "removeInlineComment_loop l i = removeInlineComment_loop l (i + 1)"
        by (subst removeInlineComment_loop.simps) auto
      ultimately show ?thesis using c by (simp add: u)
    qed
  qed
qed

lemma removeInlineComment_find:
  "removeInlineComment l =
     (case find (commentStart l) [0..<length l] of
        None \<Rightarrow> l
      | Some n \<Rightarrow> trimSpace (take n l))"
  by (simp add: removeInlineComment_def removeInlineComment_loop_find)


text \<open>On a line of ASCII bytes that is the rule of the specification.\<close>

lemma commentStart_ascii:
  assumes "\<forall>c \<in> set l. byte c < 0x80" and "i < length l"
  shows "commentStart l i \<longleftrightarrow> commentStart_claimed l i"
proof (cases "i = 0")
  case True
  then show ?thesis by (simp add: commentStart_def commentStart_claimed_def)
next
  case False
  with assms(2) have t: "take i l \<noteq> []" by auto
  then have "last (take i l) = take i l ! (length (take i l) - 1)" by (rule last_conv_nth)
  also from assms(2) have "length (take i l) = i" by simp
  also from False have "take i l ! (i - 1) = l ! (i - 1)" by simp
  finally have la: "last (take i l) = l ! (i - 1)" .
  from False assms have "byte (l ! (i - 1)) < 0x80" by simp
  with t la have "0 < lastSpaceWidth (take i l) \<longleftrightarrow> isSpaceByte (l ! (i - 1))"
    by (simp add: lastSpaceWidth_def isSpaceByte_ascii)
  with False show ?thesis by (simp add: commentStart_def commentStart_claimed_def)
qed

lemma removeInlineComment_ascii:
  assumes "\<forall>c \<in> set l. byte c < 0x80"
  shows "removeInlineComment l = removeInlineComment_claimed l"
proof -
  have "find (commentStart l) [0..<length l] = find (commentStart_claimed l) [0..<length l]"
    using commentStart_ascii [OF assms] by (intro find_cong) auto
  then show ?thesis by (simp add: removeInlineComment_find removeInlineComment_claimed_def)
qed


text \<open>
  Claim C6 says that a \<^verbatim>\<open>#\<close> in the middle of a token, not preceded by white space, is
  kept. The code looks at the one byte before the \<^verbatim>\<open>#\<close> and takes its value for a code
  point. Take the line \<^verbatim>\<open>LABEL x=voila#1\<close> with a grave accent on the \<^verbatim>\<open>a\<close>: the letter before
  the \<^verbatim>\<open>#\<close> is U+00E0, encoded as 0xC3 0xA0, and 0xA0 as a code point is the no-break
  space. The code drops \<^verbatim>\<open>#1\<close>; by the rule of the specification the line stays whole, and
  \<^verbatim>\<open>strings.Fields\<close> has the \<^verbatim>\<open>#\<close> inside the second token.
\<close>

theorem inline_comment_after_byte_A0:
  "removeInlineComment (''LABEL x=voil'' @ [CHR 0xC3, CHR 0xA0] @ ''#1'')
     = ''LABEL x=voil'' @ [CHR 0xC3, CHR 0xA0] \<and>
   removeInlineComment_claimed (''LABEL x=voil'' @ [CHR 0xC3, CHR 0xA0] @ ''#1'')
     = ''LABEL x=voil'' @ [CHR 0xC3, CHR 0xA0] @ ''#1'' \<and>
   Fields (''LABEL x=voil'' @ [CHR 0xC3, CHR 0xA0] @ ''#1'')
     = [''LABEL'', ''x=voil'' @ [CHR 0xC3, CHR 0xA0] @ ''#1''] \<and>
   readInstructions (dockerfile [''FROM a'', ''LABEL x=voil'' @ [CHR 0xC3, CHR 0xA0] @ ''#1''])
       ''Dockerfile''
     = Inr [\<lparr>rline = 1, rtext = ''FROM a''\<rparr>,
            \<lparr>rline = 2, rtext = ''LABEL x=voil'' @ [CHR 0xC3, CHR 0xA0]\<rparr>]"
  by (simp add: string_defs analyzer_defs removeInlineComment_claimed_def commentStart_claimed_def
      upt_conv_Cons)

section \<open>Line continuations\<close>

text \<open>A last line that continues and has text before its backslash makes
  \<open>readInstructions\<close> fail, whatever came before it.\<close>

lemma readInstructions_loop_snoc_carry:
  assumes "trimSpace l \<noteq> []" "\<not> hasPrefix (trimSpace l) ''#''"
      and "removeInlineComment (trimSpace l) \<noteq> []"
      and "stripContinuation (removeInlineComment (trimSpace l)) = (part, True)"
  shows "fst (readInstructions_loop (ls @ [l]) line current currentLine instructions) =
           (let c = fst (readInstructions_loop ls line current currentLine instructions)
            in (if length c = 0 then c else c @ '' '') @ part)"
proof (induction ls arbitrary: line current currentLine instructions)
  case Nil
  from assms show ?case by (simp add: Let_def)
next
  case (Cons x ls)
  show ?case
    by (simp add: Let_def Cons.IH split: prod.splits)
qed

lemma dangling_text_fails:
  assumes "Open fs path = Inr \<lparr>Lines = ls @ [l], Err = None\<rparr>"
      and "trimSpace l \<noteq> []" "\<not> hasPrefix (trimSpace l) ''#''"
      and "removeInlineComment (trimSpace l) \<noteq> []"
      and "stripContinuation (removeInlineComment (trimSpace l)) = (part, True)"
      and "part \<noteq> []"
  shows "readInstructions fs path = Inl (Error ''unterminated line continuation at end of file'')"
proof -
  from readInstructions_loop_snoc_carry [OF assms(2-5), of ls 1 "[]" 0 "[]"] assms(6)
  have "fst (readInstructions_loop (ls @ [l]) 1 [] 0 []) \<noteq> []"
    by (simp add: Let_def)
  with assms(1) show ?thesis
    by (auto simp: readInstructions_def split: prod.splits)
qed

lemma dangling_continuation_scenario:
  "readInstructions (dockerfile [''FROM a'', ''RUN foo '' @ [CHR 0x5C]]) ''Dockerfile''
     = Inl (Error ''unterminated line continuation at end of file'')"
  by (simp add: string_defs analyzer_defs)

text \<open>
  Claim C7 says that a file whose last contributing line ends with a backslash fails. The
  code tests whether the text collected so far is empty, so a last line that is a
  backslash alone, after an instruction that was closed, leaves nothing to test: the line
  continues (\<open>stripContinuation\<close> says so), and the analysis succeeds.
\<close>

theorem lone_backslash_at_end_accepted:
  "stripContinuation [CHR 0x5C] = ([], True) \<and>
   readInstructions (dockerfile [''FROM alpine'', [CHR 0x5C]]) ''Dockerfile''
     = Inr [\<lparr>rline = 1, rtext = ''FROM alpine''\<rparr>] \<and>
   \<not> isl (analyzeDockerfile (dockerfile [''FROM alpine'', [CHR 0x5C]]) ''Dockerfile'')"
  by (simp add: string_defs analyzer_defs)

end
